theory Spec2Isabelle
  imports Main "HOL-Library.Word" "HOL-Library.Multiset"
begin

section \<open>Errors\<close>

text \<open>
  The exceptions raised by \<^verbatim>\<open>theano/sandbox/gpuarray/subtensor.py\<close> and by the
  array library it calls. \<open>ValueError\<close> is what \<^verbatim>\<open>fix_indices\<close> sets for a zero step,
  \<open>AssertionError\<close> is the failing \<^verbatim>\<open>assert len(y) == len(idx)\<close>, and
  \<open>NotImplementedError\<close> is raised both by \<^verbatim>\<open>getInplElemwiseAdditionKernel\<close> and by
  \<^verbatim>\<open>GpuAdvancedIncSubtensor1_dev20.c_code\<close>. \<open>OutOfBounds\<close> is not an exception: it
  marks an access of the device kernel outside the buffer it was given, which the C
  code does not check and whose effect is undefined.
\<close>

datatype error = ValueError | IndexError | AssertionError | NotImplementedError | OutOfBounds

section \<open>Index normalisation: \<^verbatim>\<open>fix_indices\<close>\<close>

text \<open>
  The C helper works on \<^verbatim>\<open>ssize_t\<close> cells and a \<^verbatim>\<open>size_t\<close> length. Both are 64-bit
  words here; \<open><s\<close> is the signed comparison of two \<^verbatim>\<open>ssize_t\<close>, while the
  comparison \<^verbatim>\<open>*start >= len\<close> converts its signed operand to \<^verbatim>\<open>size_t\<close> and is
  the unsigned \<open>\<le>\<close>. Additions and \<^verbatim>\<open>len-1\<close> wrap around.
\<close>

type_synonym ssize_t = "64 word"
type_synonym size_t = "64 word"

definition fix_indices ::
  "ssize_t \<Rightarrow> ssize_t \<Rightarrow> ssize_t \<Rightarrow> bool \<Rightarrow> bool \<Rightarrow> bool \<Rightarrow> size_t
     \<Rightarrow> error + (ssize_t \<times> ssize_t \<times> ssize_t)" where
  "fix_indices start0 stop0 step0 start_n stop_n step_n len =
    (let step = (if step_n then 1 else step0) in
     if step = 0 then Inl ValueError
     else
       let start =
             (if start_n then (if step <s 0 then len - 1 else 0)
              else
                let s1 = (if start0 <s 0 then start0 + len else start0);
                    s2 = (if s1 <s 0 then (if step <s 0 then - 1 else 0) else s1)
                in (if - 1 <s s2 \<and> len \<le> s2
                    then (if step <s 0 then len - 1 else len) else s2));
           stop =
             (if stop_n then (if step <s 0 then - 1 else len)
              else
                let e1 = (if stop0 <s 0 then stop0 + len else stop0);
                    e2 = (if e1 <s 0 then (if step <s 0 then - 1 else 0) else e1)
                in (if - 1 <s e2 \<and> len \<le> e2
                    then (if step <s 0 then len - 1 else len) else e2));
           stop' = (if stop <s start \<and> 0 <s step then start else stop)
       in Inr (start, stop', step))"

text \<open>
  \<^verbatim>\<open>fix_idx\<close> inside \<^verbatim>\<open>GpuSubtensor.c_code\<close>: an omitted slice field is passed as the
  value \<open>0\<close> with its flag set, a present one as its value with the flag clear.
\<close>

definition fix_idx :: "ssize_t option \<Rightarrow> ssize_t \<times> bool" where
  "fix_idx idx = (case idx of None \<Rightarrow> (0, True) | Some v \<Rightarrow> (v, False))"

text \<open>The call that \<^verbatim>\<open>c_code\<close> emits for one slice of the index list.\<close>

definition fix_slice ::
  "ssize_t option \<Rightarrow> ssize_t option \<Rightarrow> ssize_t option \<Rightarrow> size_t
     \<Rightarrow> error + (ssize_t \<times> ssize_t \<times> ssize_t)" where
  "fix_slice start stop step len =
    (case (fix_idx start, fix_idx stop, fix_idx step) of
       ((a, a_n), (b, b_n), (c, c_n)) \<Rightarrow> fix_indices a b c a_n b_n c_n len)"

subsection \<open>Reference slice semantics\<close>

text \<open>
  The reference the normaliser is compared with is Python's own rule for
  \<^verbatim>\<open>slice(start, stop, step).indices(len)\<close> on unbounded integers: a negative bound
  counts from the end, and every bound is clamped into \<open>[lower, upper]\<close>, which is
  \<open>[-1, len - 1]\<close> for a negative step and \<open>[0, len]\<close> otherwise.
\<close>

definition py_slice_indices ::
  "int option \<Rightarrow> int option \<Rightarrow> int option \<Rightarrow> int \<Rightarrow> error + (int \<times> int \<times> int)" where
  "py_slice_indices start stop step len =
    (let st = (case step of None \<Rightarrow> 1 | Some s \<Rightarrow> s) in
     if st = 0 then Inl ValueError
     else
       let lower = (if st < 0 then - 1 else 0);
           upper = (if st < 0 then len - 1 else len);
           clamp = (\<lambda>v. if v < 0 then max (v + len) lower else min v upper);
           b = (case start of None \<Rightarrow> (if st < 0 then upper else lower) | Some v \<Rightarrow> clamp v);
           e = (case stop of None \<Rightarrow> (if st < 0 then lower else upper) | Some v \<Rightarrow> clamp v)
       in Inr (b, e, st))"

text \<open>
  The positions a triple selects: \<open>start\<close>, \<open>start + step\<close>, ... for as long as the
  position lies strictly before \<open>stop\<close> in the direction of \<open>step\<close>.
\<close>

function slice_positions :: "int \<Rightarrow> int \<Rightarrow> int \<Rightarrow> int list" where
  "slice_positions i stop step =
    (if (0 < step \<and> i < stop) \<or> (step < 0 \<and> stop < i)
     then i # slice_positions (i + step) stop step else [])"
  by pat_completeness auto
termination
  by (relation "measure (\<lambda>(i, stop, step). nat (if 0 < step then stop - i else i - stop))") auto

declare slice_positions.simps [simp del]


text \<open>
  The branch that \<^verbatim>\<open>fix_indices\<close> runs for a present bound is written twice in
  the C source, once for \<^verbatim>\<open>*start\<close> and once for \<^verbatim>\<open>*stop\<close>. \<open>c_bound\<close> names that
  branch for the proofs, and \<open>py_clamp\<close> names the reference's clamping of a present
  bound.
\<close>

definition c_bound :: "ssize_t \<Rightarrow> ssize_t \<Rightarrow> size_t \<Rightarrow> ssize_t" where
  "c_bound v step len =
     (let s1 = (if v <s 0 then v + len else v);
          s2 = (if s1 <s 0 then (if step <s 0 then - 1 else 0) else s1)
      in (if - 1 <s s2 \<and> len \<le> s2
          then (if step <s 0 then len - 1 else len) else s2))"

definition py_clamp :: "int \<Rightarrow> int \<Rightarrow> int \<Rightarrow> int" where
  "py_clamp v st len =
     (if v < 0 then max (v + len) (if st < 0 then - 1 else 0)
      else min v (if st < 0 then len - 1 else len))"


section \<open>Device arrays and the buffer store\<close>

text \<open>
  A \<^verbatim>\<open>GpuArray\<close> is a view descriptor over a device buffer: the buffer it refers to,
  the position of its first element, its shape and one stride per axis (positions and
  strides counted in elements), and its element type. The store holds the buffers;
  a buffer's address is its index in the store, so a fresh buffer is the next index.
  Two arrays alias exactly when they name the same buffer.
\<close>

type_synonym addr = nat

datatype dtype = Float16 | Float32 | Float64 | Int64

record gpuarray =
  buf :: addr
  offset :: int
  shape :: "nat list"
  strides :: "int list"
  dtype :: dtype

type_synonym 'a heap = "'a list list"

text \<open>The element positions of a view, in row-major order of its indices.\<close>

fun view_offsets :: "int \<Rightarrow> nat list \<Rightarrow> int list \<Rightarrow> int list" where
  "view_offsets off [] ss = [off]"
| "view_offsets off (n # ns) ss =
     concat (map (\<lambda>i. view_offsets (off + int i * hd ss) ns (tl ss)) [0..<n])"

definition ga_offsets :: "gpuarray \<Rightarrow> int list" where
  "ga_offsets a = view_offsets (offset a) (shape a) (strides a)"

definition ga_read :: "'a heap \<Rightarrow> gpuarray \<Rightarrow> 'a list" where
  "ga_read h a = map (\<lambda>p. h ! buf a ! nat p) (ga_offsets a)"

definition store_at :: "'a list \<Rightarrow> int list \<Rightarrow> 'a list \<Rightarrow> 'a list" where
  "store_at d ps vs = fold (\<lambda>(p, v) d'. d'[nat p := v]) (zip ps vs) d"

definition ga_write :: "'a heap \<Rightarrow> gpuarray \<Rightarrow> 'a list \<Rightarrow> 'a heap" where
  "ga_write h a vs = h[buf a := store_at (h ! buf a) (ga_offsets a) vs]"

text \<open>
  An array is valid in a store when its buffer exists, it has one stride per axis and
  every position it reaches lies inside the buffer. The library never hands out any
  other array.
\<close>

definition ga_valid :: "'a heap \<Rightarrow> gpuarray \<Rightarrow> bool" where
  "ga_valid h a \<longleftrightarrow>
     buf a < length h \<and> length (strides a) = length (shape a) \<and>
     (\<forall>p \<in> set (ga_offsets a). 0 \<le> p \<and> p < int (length (h ! buf a)))"

subsection \<open>Operations of the array library\<close>

text \<open>
  \<^verbatim>\<open>x.copy()\<close> and \<^verbatim>\<open>pygpu_copy\<close>: a new buffer holding the elements of the view, and a
  contiguous row-major array over it.
\<close>

fun c_strides :: "nat list \<Rightarrow> int list" where
  "c_strides [] = []"
| "c_strides (n # ns) = int (prod_list ns) # c_strides ns"

definition ga_copy :: "'a heap \<Rightarrow> gpuarray \<Rightarrow> 'a heap \<times> gpuarray" where
  "ga_copy h a =
     (h @ [ga_read h a], a\<lparr>buf := length h, offset := 0, strides := c_strides (shape a)\<rparr>)"

text \<open>
  \<^verbatim>\<open>x[i]\<close> for an integer \<open>i\<close>: a negative index counts from the end, an index out of
  range raises \<^verbatim>\<open>IndexError\<close>, and the result is the view of that entry of the leading
  axis.
\<close>

definition ga_getitem :: "gpuarray \<Rightarrow> int \<Rightarrow> error + gpuarray" where
  "ga_getitem a i =
     (case shape a of
        [] \<Rightarrow> Inl IndexError
      | n # ns \<Rightarrow>
          (let k = (if i < 0 then i + int n else i) in
           if k < 0 \<or> int n \<le> k then Inl IndexError
           else Inr (a\<lparr>offset := offset a + k * hd (strides a), shape := ns,
                       strides := tl (strides a)\<rparr>)))"

text \<open>
  The two reshapes that \<^verbatim>\<open>perform\<close> asks for. \<^verbatim>\<open>y.reshape(y.shape[1:])\<close> is only called
  when the leading extent is 1 and drops that axis; \<^verbatim>\<open>y.reshape((1,)*k + y.shape)\<close> adds
  \<open>k\<close> leading axes of extent 1. Both are views of the same elements.
\<close>

definition drop_leading_axis :: "gpuarray \<Rightarrow> gpuarray" where
  "drop_leading_axis a = a\<lparr>shape := tl (shape a), strides := tl (strides a)\<rparr>"

definition pad_unit_axes :: "nat \<Rightarrow> gpuarray \<Rightarrow> gpuarray" where
  "pad_unit_axes k a =
     a\<lparr>shape := replicate k 1 @ shape a, strides := replicate k 0 @ strides a\<rparr>"

text \<open>
  Broadcasting a source of the same rank to a target shape: an axis of equal extent
  keeps its stride, an axis of extent 1 is repeated with stride 0, and anything else
  is a \<^verbatim>\<open>ValueError\<close>.
\<close>

fun bcast_strides :: "nat list \<Rightarrow> nat list \<Rightarrow> int list \<Rightarrow> int list option" where
  "bcast_strides [] [] ss = Some []"
| "bcast_strides (n # ns) (m # ms) ss =
     (case bcast_strides ns ms (tl ss) of
        None \<Rightarrow> None
      | Some r \<Rightarrow> if m = n then Some (hd ss # r) else if m = 1 then Some (0 # r) else None)"
| "bcast_strides _ _ ss = None"

definition broadcast_view :: "gpuarray \<Rightarrow> nat list \<Rightarrow> error + gpuarray" where
  "broadcast_view b target =
     (case bcast_strides target (shape b) (strides b) of
        None \<Rightarrow> Inl ValueError
      | Some r \<Rightarrow> Inr (b\<lparr>shape := target, strides := r\<rparr>))"

text \<open>
  The call \<^verbatim>\<open>k(a, b, broadcast=...)\<close> of an elementwise kernel \<^verbatim>\<open>a[i] = a[i] + b[i]\<close>:
  both operands must have the same rank; without broadcasting their shapes must be
  equal, with it \<open>b\<close> is broadcast to the shape of \<open>a\<close>.
\<close>

definition elemwise_iadd ::
  "bool \<Rightarrow> ('a::plus) heap \<Rightarrow> gpuarray \<Rightarrow> gpuarray \<Rightarrow> error + 'a heap" where
  "elemwise_iadd broadcast h a b =
     (if \<not> broadcast \<and> shape b \<noteq> shape a then Inl ValueError
      else case broadcast_view b (shape a) of
             Inl e \<Rightarrow> Inl e
           | Inr b' \<Rightarrow> Inr (ga_write h a (map2 (+) (ga_read h a) (ga_read h b'))))"

text \<open>
  \<^verbatim>\<open>GpuArray_setarray\<close>, which \<^verbatim>\<open>x[i] = v\<close> ends in: the source may have fewer axes than
  the destination and is broadcast to it, aligned on the trailing axes.
\<close>

definition ga_setarray :: "'a heap \<Rightarrow> gpuarray \<Rightarrow> gpuarray \<Rightarrow> error + 'a heap" where
  "ga_setarray h a v =
     (if length (shape a) < length (shape v) then Inl ValueError
      else case broadcast_view (pad_unit_axes (length (shape a) - length (shape v)) v) (shape a) of
             Inl e \<Rightarrow> Inl e
           | Inr v' \<Rightarrow> Inr (ga_write h a (ga_read h v')))"

text \<open>\<^verbatim>\<open>x[i] = v\<close> for an integer \<open>i\<close>.\<close>

definition ga_setitem :: "'a heap \<Rightarrow> gpuarray \<Rightarrow> int \<Rightarrow> gpuarray \<Rightarrow> error + 'a heap" where
  "ga_setitem h x i v =
     (case ga_getitem x i of Inl e \<Rightarrow> Inl e | Inr xi \<Rightarrow> ga_setarray h xi v)"

section \<open>Scatter updates: \<^verbatim>\<open>GpuAdvancedIncSubtensor1.perform\<close>\<close>

text \<open>The attributes of the operation that \<^verbatim>\<open>perform\<close> reads.\<close>

record inc_op =
  inplace :: bool
  set_instead_of_inc :: bool

text \<open>
  A Python \<^verbatim>\<open>for\<close> loop whose body may raise: the first exception ends the loop. An
  exception is reported together with the store it leaves behind, which is the store
  in which the failing pass began: every loop body of this file makes all its checks
  before its single write.
\<close>

fun for_each :: "('s \<Rightarrow> 'b \<Rightarrow> error + 's) \<Rightarrow> 's \<Rightarrow> 'b list \<Rightarrow> (error \<times> 's) + 's" where
  "for_each body s [] = Inr s"
| "for_each body s (b # bs) =
     (case body s b of Inl e \<Rightarrow> Inl (e, s) | Inr s' \<Rightarrow> for_each body s' bs)"

definition getInplElemwiseAdditionKernel :: "gpuarray \<Rightarrow> gpuarray \<Rightarrow> error + unit" where
  "getInplElemwiseAdditionKernel a b =
     (if dtype a = Float16 \<or> dtype b = Float16 then Inl NotImplementedError else Inr ())"

text \<open>The bodies of the four loops of \<^verbatim>\<open>perform\<close>.\<close>

definition set_paired :: "gpuarray \<Rightarrow> gpuarray \<Rightarrow> 'a heap \<Rightarrow> nat \<times> int \<Rightarrow> error + 'a heap" where
  "set_paired x y h ji =
     (case ji of (j, i) \<Rightarrow>
        (case ga_getitem y (int j) of Inl e \<Rightarrow> Inl e | Inr yj \<Rightarrow> ga_setitem h x i yj))"

definition inc_paired ::
  "gpuarray \<Rightarrow> gpuarray \<Rightarrow> ('a::plus) heap \<Rightarrow> nat \<times> int \<Rightarrow> error + 'a heap" where
  "inc_paired x y h ji =
     (case ji of (j, i) \<Rightarrow>
        (case ga_getitem x i of
           Inl e \<Rightarrow> Inl e
         | Inr xi \<Rightarrow>
             (case ga_getitem y (int j) of
                Inl e \<Rightarrow> Inl e
              | Inr yj \<Rightarrow> elemwise_iadd True h xi yj)))"

definition set_bcast :: "gpuarray \<Rightarrow> gpuarray \<Rightarrow> 'a heap \<Rightarrow> int \<Rightarrow> error + 'a heap" where
  "set_bcast x reshaped_y h i = ga_setitem h x i reshaped_y"

definition inc_bcast ::
  "gpuarray \<Rightarrow> gpuarray \<Rightarrow> ('a::plus) heap \<Rightarrow> int \<Rightarrow> error + 'a heap" where
  "inc_bcast x reshaped_y h i =
     (case ga_getitem x i of Inl e \<Rightarrow> Inl e | Inr xi \<Rightarrow> elemwise_iadd True h xi reshaped_y)"

text \<open>
  \<^verbatim>\<open>perform\<close>. The result pairs the store after the call with \<^verbatim>\<open>out[0]\<close>; an
  exception is paired with the store at the moment it is raised. The indices are the
  elements of \<^verbatim>\<open>idx\<close>; \<^verbatim>\<open>y.shape[0]\<close> of an array without axes raises \<^verbatim>\<open>IndexError\<close>.
\<close>

definition adv_perform ::
  "inc_op \<Rightarrow> ('a::plus) heap \<Rightarrow> gpuarray \<Rightarrow> gpuarray \<Rightarrow> int list
     \<Rightarrow> (error \<times> 'a heap) + ('a heap \<times> gpuarray)" where
  "adv_perform op h x0 y idx =
     (case (if \<not> inplace op then ga_copy h x0 else (h, x0)) of
        (h1, x) \<Rightarrow>
          if length idx = 0 then Inr (h1, x)
          else if length (shape y) = length (shape x) \<and> shape y = [] then Inl (IndexError, h1)
          else if length (shape y) = length (shape x) \<and> hd (shape y) \<noteq> 1 then
            (if hd (shape y) \<noteq> length idx then Inl (AssertionError, h1)
             else if set_instead_of_inc op then
               (case for_each (set_paired x y) h1 (enumerate 0 idx) of
                  Inl e \<Rightarrow> Inl e | Inr h2 \<Rightarrow> Inr (h2, x))
             else
               (case ga_getitem x 0 of
                  Inl e \<Rightarrow> Inl (e, h1)
                | Inr x_0 \<Rightarrow>
                    (case ga_getitem y 0 of
                       Inl e \<Rightarrow> Inl (e, h1)
                     | Inr y_0 \<Rightarrow>
                         (case getInplElemwiseAdditionKernel x_0 y_0 of
                            Inl e \<Rightarrow> Inl (e, h1)
                          | Inr k \<Rightarrow>
                              (case for_each (inc_paired x y) h1 (enumerate 0 idx) of
                                 Inl e \<Rightarrow> Inl e | Inr h2 \<Rightarrow> Inr (h2, x))))))
          else
            (let reshaped_y =
                   (if length (shape y) = length (shape x) then drop_leading_axis y
                    else pad_unit_axes ((length (shape x) - 1) - length (shape y)) y)
             in if set_instead_of_inc op then
                  (case for_each (set_bcast x reshaped_y) h1 idx of
                     Inl e \<Rightarrow> Inl e | Inr h2 \<Rightarrow> Inr (h2, x))
                else
                  (case ga_getitem x 0 of
                     Inl e \<Rightarrow> Inl (e, h1)
                   | Inr x_0 \<Rightarrow>
                       (case getInplElemwiseAdditionKernel x_0 reshaped_y of
                          Inl e \<Rightarrow> Inl (e, h1)
                        | Inr k \<Rightarrow>
                            (case for_each (inc_bcast x reshaped_y) h1 idx of
                               Inl e \<Rightarrow> Inl e | Inr h2 \<Rightarrow> Inr (h2, x))))))"


section \<open>Basic indexing\<close>

text \<open>
  An entry of an operation's \<^verbatim>\<open>idx_list\<close> is a scalar position or a slice. A scalar, and
  each present field of a slice, is either a Python integer or a \<^verbatim>\<open>gof.Type\<close>
  placeholder whose value is one of the run-time inputs, taken in order.
\<close>

datatype entry = Const int | Runtime

datatype idx_entry =
  Scalar entry
| SliceOf "entry option" "entry option" "entry option"

subsection \<open>Python indexing of an array\<close>

text \<open>The keys of \<^verbatim>\<open>x.__getitem__\<close>, with every placeholder replaced by its value.\<close>

datatype key = KInt int | KSlice "int option" "int option" "int option"

text \<open>
  \<^verbatim>\<open>convert\<close> of \<^verbatim>\<open>GpuIncSubtensor.perform\<close>. \<^verbatim>\<open>indices\<close> is the reversed list of the
  run-time inputs and \<^verbatim>\<open>indices.pop()\<close> takes them from its end, that is in their
  original order; popping from an empty list raises \<^verbatim>\<open>IndexError\<close>.
\<close>

fun convert_scalar :: "entry \<Rightarrow> int list \<Rightarrow> error + (int \<times> int list)" where
  "convert_scalar (Const c) indices = Inr (c, indices)"
| "convert_scalar Runtime [] = Inl IndexError"
| "convert_scalar Runtime (v # indices) = Inr (v, indices)"

fun convert_field :: "entry option \<Rightarrow> int list \<Rightarrow> error + (int option \<times> int list)" where
  "convert_field None indices = Inr (None, indices)"
| "convert_field (Some e) indices =
     (case convert_scalar e indices of
        Inl err \<Rightarrow> Inl err | Inr (v, rest) \<Rightarrow> Inr (Some v, rest))"

fun convert :: "idx_entry \<Rightarrow> int list \<Rightarrow> error + (key \<times> int list)" where
  "convert (Scalar e) indices =
     (case convert_scalar e indices of
        Inl err \<Rightarrow> Inl err | Inr (v, rest) \<Rightarrow> Inr (KInt v, rest))"
| "convert (SliceOf a b c) indices =
     (case convert_field a indices of
        Inl err \<Rightarrow> Inl err
      | Inr (a', r1) \<Rightarrow>
          (case convert_field b r1 of
             Inl err \<Rightarrow> Inl err
           | Inr (b', r2) \<Rightarrow>
               (case convert_field c r2 of
                  Inl err \<Rightarrow> Inl err
                | Inr (c', r3) \<Rightarrow> Inr (KSlice a' b' c', r3))))"

fun convert_all :: "idx_entry list \<Rightarrow> int list \<Rightarrow> error + key list" where
  "convert_all [] indices = Inr []"
| "convert_all (e # es) indices =
     (case convert e indices of
        Inl err \<Rightarrow> Inl err
      | Inr (k, rest) \<Rightarrow>
          (case convert_all es rest of Inl err \<Rightarrow> Inl err | Inr ks \<Rightarrow> Inr (k # ks)))"

text \<open>
  \<^verbatim>\<open>x.__getitem__(cdata)\<close> of the array library: the keys apply to the leading axes in
  order. An integer selects one entry (negative counts from the end, out of range is
  an \<^verbatim>\<open>IndexError\<close>) and removes the axis; a slice follows Python's slice rule; axes
  without a key are kept whole; more keys than axes is an \<^verbatim>\<open>IndexError\<close>. The result
  is the offset to add, the shape and the strides of the view.
\<close>

fun getitem_axes ::
  "key list \<Rightarrow> nat list \<Rightarrow> int list \<Rightarrow> error + (int \<times> nat list \<times> int list)" where
  "getitem_axes [] ns ss = Inr (0, ns, ss)"
| "getitem_axes (k # ks) [] ss = Inl IndexError"
| "getitem_axes (KInt i # ks) (n # ns) ss =
     (let j = (if i < 0 then i + int n else i) in
      if j < 0 \<or> int n \<le> j then Inl IndexError
      else case getitem_axes ks ns (tl ss) of
             Inl e \<Rightarrow> Inl e
           | Inr (off, sh, st) \<Rightarrow> Inr (j * hd ss + off, sh, st))"
| "getitem_axes (KSlice a b c # ks) (n # ns) ss =
     (case py_slice_indices a b c (int n) of
        Inl e \<Rightarrow> Inl e
      | Inr (start, stop, step) \<Rightarrow>
          (case getitem_axes ks ns (tl ss) of
             Inl e \<Rightarrow> Inl e
           | Inr (off, sh, st) \<Rightarrow>
               Inr (start * hd ss + off,
                    length (slice_positions start stop step) # sh,
                    step * hd ss # st)))"

definition ga_getitem_keys :: "gpuarray \<Rightarrow> key list \<Rightarrow> error + gpuarray" where
  "ga_getitem_keys a ks =
     (case getitem_axes ks (shape a) (strides a) of
        Inl e \<Rightarrow> Inl e
      | Inr (off, sh, st) \<Rightarrow> Inr (a\<lparr>offset := offset a + off, shape := sh, strides := st\<rparr>))"

text \<open>\<^verbatim>\<open>x.__setitem__(cdata, v)\<close>: the view for the keys, then \<^verbatim>\<open>GpuArray_setarray\<close>.\<close>

definition ga_setitem_keys ::
  "'a heap \<Rightarrow> gpuarray \<Rightarrow> key list \<Rightarrow> gpuarray \<Rightarrow> error + 'a heap" where
  "ga_setitem_keys h x ks v =
     (case ga_getitem_keys x ks of Inl e \<Rightarrow> Inl e | Inr sub \<Rightarrow> ga_setarray h sub v)"

text \<open>
  \<^verbatim>\<open>pygpu.elemwise.elemwise2(a, '+', b, a, broadcast=False)\<close>: a new array holding the
  elementwise sum of two arrays of the same shape.
\<close>

definition elemwise2_add ::
  "('a::plus) heap \<Rightarrow> gpuarray \<Rightarrow> gpuarray \<Rightarrow> error + ('a heap \<times> gpuarray)" where
  "elemwise2_add h a b =
     (if shape b \<noteq> shape a then Inl ValueError
      else Inr (h @ [map2 (+) (ga_read h a) (ga_read h b)],
                a\<lparr>buf := length h, offset := 0, strides := c_strides (shape a)\<rparr>))"

section \<open>In-place combination: \<^verbatim>\<open>GpuIncSubtensor.perform\<close>\<close>

text \<open>
  \<^verbatim>\<open>perform\<close>. As for the scatter update, an exception is paired with the store at the
  moment it is raised.
\<close>

definition inc_perform ::
  "inc_op \<Rightarrow> idx_entry list \<Rightarrow> ('a::plus) heap \<Rightarrow> gpuarray \<Rightarrow> gpuarray \<Rightarrow> int list
     \<Rightarrow> (error \<times> 'a heap) + ('a heap \<times> gpuarray)" where
  "inc_perform op idx_list h x0 y inputs =
     (case convert_all idx_list inputs of
        Inl e \<Rightarrow> Inl (e, h)
      | Inr cdata \<Rightarrow>
          (case (if \<not> inplace op then ga_copy h x0 else (h, x0)) of
             (h1, x) \<Rightarrow>
               (case ga_getitem_keys x cdata of
                  Inl e \<Rightarrow> Inl (e, h1)
                | Inr sub_x \<Rightarrow>
                    if shape sub_x \<noteq> [] then
                      (if \<not> set_instead_of_inc op then
                         (case elemwise_iadd False h1 sub_x y of
                            Inl e \<Rightarrow> Inl (e, h1) | Inr h2 \<Rightarrow> Inr (h2, x))
                       else
                         (case ga_setitem_keys h1 x cdata y of
                            Inl e \<Rightarrow> Inl (e, h1) | Inr h2 \<Rightarrow> Inr (h2, x)))
                    else
                      (if \<not> set_instead_of_inc op then
                         (case elemwise2_add h1 sub_x y of
                            Inl e \<Rightarrow> Inl (e, h1)
                          | Inr (h2, tmp) \<Rightarrow>
                              (case ga_setitem_keys h2 x cdata tmp of
                                 Inl e \<Rightarrow> Inl (e, h2) | Inr h3 \<Rightarrow> Inr (h3, x)))
                       else
                         (case ga_setitem_keys h1 x cdata y of
                            Inl e \<Rightarrow> Inl (e, h1) | Inr h2 \<Rightarrow> Inr (h2, x))))))"

section \<open>Views: \<^verbatim>\<open>GpuSubtensor.c_code\<close>\<close>

text \<open>
  The generated C code works on \<^verbatim>\<open>ssize_t\<close>. While the code is generated, every
  placeholder takes the name of the next run-time input (\<^verbatim>\<open>indices.pop(0)\<close>) and every
  integer is written as a literal; \<open>c_index\<close> is an entry after that step.
\<close>

datatype c_index =
  CScalar ssize_t
| CSlice "ssize_t option" "ssize_t option" "ssize_t option"

fun c_scalar :: "entry \<Rightarrow> ssize_t list \<Rightarrow> error + (ssize_t \<times> ssize_t list)" where
  "c_scalar (Const c) indices = Inr (word_of_int c, indices)"
| "c_scalar Runtime [] = Inl IndexError"
| "c_scalar Runtime (v # indices) = Inr (v, indices)"

fun c_field :: "entry option \<Rightarrow> ssize_t list \<Rightarrow> error + (ssize_t option \<times> ssize_t list)" where
  "c_field None indices = Inr (None, indices)"
| "c_field (Some e) indices =
     (case c_scalar e indices of
        Inl err \<Rightarrow> Inl err | Inr (v, rest) \<Rightarrow> Inr (Some v, rest))"

fun c_entries :: "idx_entry list \<Rightarrow> ssize_t list \<Rightarrow> error + c_index list" where
  "c_entries [] indices = Inr []"
| "c_entries (SliceOf a b c # es) indices =
     (case c_field a indices of
        Inl err \<Rightarrow> Inl err
      | Inr (a', r1) \<Rightarrow>
          (case c_field b r1 of
             Inl err \<Rightarrow> Inl err
           | Inr (b', r2) \<Rightarrow>
               (case c_field c r2 of
                  Inl err \<Rightarrow> Inl err
                | Inr (c', r3) \<Rightarrow>
                    (case c_entries es r3 of
                       Inl err \<Rightarrow> Inl err
                     | Inr cs \<Rightarrow> Inr (CSlice a' b' c' # cs)))))"
| "c_entries (Scalar e # es) indices =
     (case c_scalar e indices of
        Inl err \<Rightarrow> Inl err
      | Inr (v, rest) \<Rightarrow>
          (case c_entries es rest of
             Inl err \<Rightarrow> Inl err | Inr cs \<Rightarrow> Inr (CScalar v # cs)))"

text \<open>
  The statements emitted per axis, run in order: a slice calls \<^verbatim>\<open>fix_indices\<close> with
  the extent of its axis and fails when that returns \<open>-1\<close>; a scalar is increased by
  the extent when negative and recorded with step \<open>0\<close> (its \<^verbatim>\<open>stops\<close> cell is never
  read, and is \<open>0\<close> here).
\<close>

fun c_axes ::
  "c_index list \<Rightarrow> nat list \<Rightarrow> error + (ssize_t \<times> ssize_t \<times> ssize_t) list" where
  "c_axes [] dims = Inr []"
| "c_axes (CSlice a b c # cs) dims =
     (case fix_slice a b c (word_of_nat (hd dims)) of
        Inl e \<Rightarrow> Inl e
      | Inr t \<Rightarrow> (case c_axes cs (tl dims) of Inl e \<Rightarrow> Inl e | Inr ts \<Rightarrow> Inr (t # ts)))"
| "c_axes (CScalar v # cs) dims =
     (let cur = (if v <s 0 then v + word_of_nat (hd dims) else v) in
      case c_axes cs (tl dims) of Inl e \<Rightarrow> Inl e | Inr ts \<Rightarrow> Inr ((cur, 0, 0) # ts))"

text \<open>
  \<^verbatim>\<open>pygpu_index\<close> is the array library's view builder, described in section 4.2 of the
  specification: per axis the offset grows by \<open>start\<close> times the stride; an axis with
  step \<open>0\<close> is dropped from the shape; a sliced axis has the number of selected
  positions as its extent and \<open>step\<close> times the stride as its stride; a start outside
  \<open>[-1, len]\<close>, or a scalar position outside the axis, is an \<^verbatim>\<open>IndexError\<close>. The view
  shares the buffer of its source.
\<close>

fun index_axes ::
  "(int \<times> int \<times> int) list \<Rightarrow> nat list \<Rightarrow> int list
     \<Rightarrow> error + (int \<times> nat list \<times> int list)" where
  "index_axes [] ns ss = Inr (0, [], [])"
| "index_axes (t # ts) [] ss = Inl IndexError"
| "index_axes ((start, stop, step) # ts) (n # ns) ss =
     (if start < - 1 \<or> int n < start then Inl IndexError
      else if step = 0 \<and> (start = - 1 \<or> int n \<le> start) then Inl IndexError
      else case index_axes ts ns (tl ss) of
             Inl e \<Rightarrow> Inl e
           | Inr (off, sh, st) \<Rightarrow>
               if step = 0 then Inr (start * hd ss + off, sh, st)
               else Inr (start * hd ss + off,
                         length (slice_positions start stop step) # sh,
                         step * hd ss # st))"

definition pygpu_index ::
  "gpuarray \<Rightarrow> (ssize_t \<times> ssize_t \<times> ssize_t) list \<Rightarrow> error + gpuarray" where
  "pygpu_index a ts =
     (case index_axes (map (\<lambda>(b, e, s). (sint b, sint e, sint s)) ts) (shape a) (strides a) of
        Inl e \<Rightarrow> Inl e
      | Inr (off, sh, st) \<Rightarrow> Inr (a\<lparr>offset := offset a + off, shape := sh, strides := st\<rparr>))"

text \<open>
  \<^verbatim>\<open>GpuSubtensor.c_code\<close>: the index list is first padded with full slices up to the
  rank of the input; an empty padded list is answered by \<^verbatim>\<open>pygpu_copy\<close>, any other by
  \<^verbatim>\<open>pygpu_index\<close> after the rank check and the per-axis statements.
\<close>

definition subtensor_c_code ::
  "idx_entry list \<Rightarrow> 'a heap \<Rightarrow> gpuarray \<Rightarrow> ssize_t list \<Rightarrow> error + ('a heap \<times> gpuarray)" where
  "subtensor_c_code idx_list0 h inp indices =
     (let inp_ndim = length (shape inp);
          idx_list = idx_list0 @ replicate (inp_ndim - length idx_list0) (SliceOf None None None)
      in if length idx_list = 0 then Inr (ga_copy h inp)
         else case c_entries idx_list indices of
                Inl e \<Rightarrow> Inl e
              | Inr cs \<Rightarrow>
                  if length (shape inp) \<noteq> length idx_list then Inl IndexError
                  else case c_axes cs (shape inp) of
                         Inl e \<Rightarrow> Inl e
                       | Inr ts \<Rightarrow>
                           (case pygpu_index inp ts of
                              Inl e \<Rightarrow> Inl e | Inr out \<Rightarrow> Inr (h, out)))"

section \<open>The accelerated scatter: \<^verbatim>\<open>GpuAdvancedIncSubtensor1_dev20\<close>\<close>

text \<open>
  Row resolution in \<^verbatim>\<open>k_vector_add_fast\<close>:
  \<^verbatim>\<open>int x_row = indices_arr[i * stridesIndices]; if (x_row < 0) x_row += numRowsX;\<close>
  The index array holds 64-bit integers, \<^verbatim>\<open>x_row\<close> is a 32-bit \<^verbatim>\<open>int\<close> and
  \<^verbatim>\<open>numRowsX\<close> a 64-bit \<^verbatim>\<open>ga_size\<close>: the initialisation truncates, and the addition is
  done in 64 bits on the sign-extended \<^verbatim>\<open>x_row\<close> and truncated again.
\<close>

definition x_row :: "size_t \<Rightarrow> 64 word \<Rightarrow> 32 word" where
  "x_row numRowsX ind =
     (let r = (ucast ind :: 32 word)
      in if r <s 0 then ucast ((scast r :: 64 word) + numRowsX) else r)"

text \<open>
  One (index entry, column) pair of the kernel: the atomic addition of
  \<^verbatim>\<open>Y[y_row * stridesY0 + j * stridesY1]\<close> to \<^verbatim>\<open>X[x_row * stridesX0 + j * stridesX1]\<close>,
  where \<^verbatim>\<open>X\<close> and \<^verbatim>\<open>Y\<close> already point at the first element of their arrays. The
  kernel checks neither address. An address outside its buffer is an access outside
  the array, which has no defined effect: the run stops there with \<open>OutOfBounds\<close>.
\<close>

definition kernel_pair ::
  "size_t \<Rightarrow> int \<Rightarrow> int \<Rightarrow> addr \<Rightarrow> int \<Rightarrow> int \<Rightarrow> int \<Rightarrow> addr \<Rightarrow> int \<Rightarrow> 64 word list
     \<Rightarrow> ('a::plus) heap \<Rightarrow> nat \<times> nat \<Rightarrow> error + 'a heap" where
  "kernel_pair numRowsX stridesX0 stridesX1 X offset_X stridesY0 stridesY1 Y offset_Y
       indices_arr h ij =
     (case ij of (i, j) \<Rightarrow>
        (let xr = sint (x_row numRowsX (indices_arr ! i));
             y_row = int i;
             p = offset_X + xr * stridesX0 + int j * stridesX1;
             q = offset_Y + y_row * stridesY0 + int j * stridesY1
         in if X < length h \<and> Y < length h \<and> 0 \<le> p \<and> p < int (length (h ! X)) \<and>
               0 \<le> q \<and> q < int (length (h ! Y))
            then Inr (h[X := (h ! X)[nat p := h ! X ! nat p + h ! Y ! nat q]])
            else Inl OutOfBounds))"

text \<open>
  The kernel visits every pair of an index entry \<open>i < numIndices\<close> and a column
  \<open>j < numColsX\<close> once (the grid-stride loops of the blocks and threads cover them
  all). Its additions are atomic, so a run amounts to performing them one after the
  other; the order taken here is by \<open>i\<close>, then by \<open>j\<close>.
\<close>

definition k_vector_add_fast ::
  "size_t \<Rightarrow> nat \<Rightarrow> int \<Rightarrow> int \<Rightarrow> addr \<Rightarrow> int \<Rightarrow> int \<Rightarrow> int \<Rightarrow> addr \<Rightarrow> int \<Rightarrow> nat
     \<Rightarrow> 64 word list \<Rightarrow> ('a::plus) heap \<Rightarrow> (error \<times> 'a heap) + 'a heap" where
  "k_vector_add_fast numRowsX numColsX stridesX0 stridesX1 X offset_X stridesY0 stridesY1
       Y offset_Y numIndices indices_arr h =
     for_each (kernel_pair numRowsX stridesX0 stridesX1 X offset_X stridesY0 stridesY1 Y
                 offset_Y indices_arr)
          h (List.product [0..<numIndices] [0..<numColsX])"

text \<open>
  \<^verbatim>\<open>GpuArray_vector_add_fast\<close>: nothing is launched for an empty grid; the strides of
  the source are \<open>0\<close> along an axis of extent 1.
\<close>

definition GpuArray_vector_add_fast ::
  "('a::plus) heap \<Rightarrow> gpuarray \<Rightarrow> gpuarray \<Rightarrow> 64 word list \<Rightarrow> (error \<times> 'a heap) + 'a heap" where
  "GpuArray_vector_add_fast h py_self py_other indices_arr =
     (let threads_per_block = min (shape py_self ! 1) 256;
          n_blocks = min (length indices_arr) 4096
      in if 0 < threads_per_block \<and> 0 < n_blocks then
           (let stride_X0 = strides py_self ! 0;
                stride_X1 = strides py_self ! 1;
                stride_Y0 = (if shape py_other ! 0 = 1 then 0 else strides py_other ! 0);
                stride_Y1 = (if shape py_other ! 1 = 1 then 0 else strides py_other ! 1)
            in k_vector_add_fast (word_of_nat (shape py_self ! 0)) (shape py_self ! 1)
                 stride_X0 stride_X1 (buf py_self) (offset py_self)
                 stride_Y0 stride_Y1 (buf py_other) (offset py_other)
                 (length indices_arr) indices_arr h)
         else Inr h)"

text \<open>
  \<^verbatim>\<open>GpuAdvancedIncSubtensor1_dev20.c_code\<close>, given the major compute capability of the
  active device. Its \<^verbatim>\<open>NotImplementedError\<close> is raised while the code is generated,
  before anything has run.
\<close>

definition dev20_c_code ::
  "nat \<Rightarrow> inc_op \<Rightarrow> ('a::plus) heap \<Rightarrow> gpuarray \<Rightarrow> gpuarray \<Rightarrow> 64 word list
     \<Rightarrow> (error \<times> 'a heap) + ('a heap \<times> gpuarray)" where
  "dev20_c_code compute_capability op h x y ind =
     (if set_instead_of_inc op \<or> length (shape x) \<noteq> length (shape y) \<or>
         length (shape x) \<noteq> 2 \<or> compute_capability < 2
      then Inl (NotImplementedError, h)
      else case (if \<not> inplace op then ga_copy h x else (h, x)) of
             (h1, out) \<Rightarrow>
               (case GpuArray_vector_add_fast h1 out y ind of
                  Inl e \<Rightarrow> Inl e | Inr h2 \<Rightarrow> Inr (h2, out)))"

text \<open>
  Modelled from the spec: the code that turns an operation into a callable and chooses
  between its C code and \<^verbatim>\<open>perform\<close> belongs to the framework and is not in the source
  file. The specification says of it: ``Accelerated-path eligibility failures
  (\<^verbatim>\<open>UnsupportedTypeError\<close>, \<^verbatim>\<open>UnsupportedConfigurationError\<close>) are recovered locally by
  silently falling back to the sequential per-index path''. The failure that \<^verbatim>\<open>c_code\<close>
  signals is \<^verbatim>\<open>NotImplementedError\<close>; the sequential path is \<^verbatim>\<open>perform\<close>, which reads the
  index array as Python integers.
\<close>

definition scatter_update ::
  "nat \<Rightarrow> inc_op \<Rightarrow> ('a::plus) heap \<Rightarrow> gpuarray \<Rightarrow> gpuarray \<Rightarrow> 64 word list
     \<Rightarrow> (error \<times> 'a heap) + ('a heap \<times> gpuarray)" where
  "scatter_update compute_capability op h x y ind =
     (case dev20_c_code compute_capability op h x y ind of
        Inl (NotImplementedError, s) \<Rightarrow> adv_perform op h x y (map sint ind)
      | r \<Rightarrow> r)"


section \<open>Auxiliary notions for the proofs\<close>

text \<open>
  \<open>frame k h h'\<close>: going from store \<open>h\<close> to store \<open>h'\<close>, no buffer of \<open>h\<close> other than
  \<open>k\<close> has changed (buffers may have been added).
\<close>

definition frame :: "addr \<Rightarrow> 'a heap \<Rightarrow> 'a heap \<Rightarrow> bool" where
  "frame k h h' \<longleftrightarrow> length h \<le> length h' \<and> (\<forall>a < length h. a \<noteq> k \<longrightarrow> h' ! a = h ! a)"

text \<open>
  The arrays of the examples, of 64-bit integers: a store with a zero \<open>3 \<times> 2\<close>
  destination in buffer 0 and a \<open>2 \<times> 2\<close> source of ones in buffer 1, and a store whose
  first buffer counts from 0.
\<close>

definition ex_heap :: "int heap" where
  "ex_heap = [[0, 0, 0, 0, 0, 0], [1, 1, 1, 1]]"

definition ex_count :: "int heap" where
  "ex_count = [[0, 1, 2, 3, 4, 5], [1, 1, 1, 1]]"

definition ex_x :: gpuarray where
  "ex_x = \<lparr>buf = 0, offset = 0, shape = [3, 2], strides = [2, 1], dtype = Int64\<rparr>"

definition ex_y :: gpuarray where
  "ex_y = \<lparr>buf = 1, offset = 0, shape = [2, 2], strides = [2, 1], dtype = Int64\<rparr>"

text \<open>
  Row-level reading of a scatter update. \<open>row_view a r\<close> is the view \<^verbatim>\<open>a[r]\<close> for a
  row number in range, \<open>rows_of\<close> lists the elements of every row of an array,
  \<open>row_index\<close> is the row an index value denotes, and \<open>bcast_read\<close> lists the elements
  of a source as they are seen once it is broadcast to the shape of a row.
\<close>

definition row_view :: "gpuarray \<Rightarrow> nat \<Rightarrow> gpuarray" where
  "row_view a r =
     a\<lparr>offset := offset a + int r * hd (strides a), shape := tl (shape a),
       strides := tl (strides a)\<rparr>"

definition rows_of :: "'a heap \<Rightarrow> gpuarray \<Rightarrow> 'a list list" where
  "rows_of h a = map (\<lambda>r. ga_read h (row_view a r)) [0..<hd (shape a)]"

definition row_index :: "nat \<Rightarrow> int \<Rightarrow> nat" where
  "row_index n i = nat (if i < 0 then i + int n else i)"

definition bcast_ok :: "gpuarray \<Rightarrow> nat list \<Rightarrow> bool" where
  "bcast_ok v ns \<longleftrightarrow> bcast_strides ns (shape v) (strides v) \<noteq> None"

definition bcast_read :: "'a heap \<Rightarrow> gpuarray \<Rightarrow> nat list \<Rightarrow> 'a list" where
  "bcast_read h v ns =
     (case broadcast_view v ns of Inl e \<Rightarrow> [] | Inr v' \<Rightarrow> ga_read h v')"

text \<open>
  The reference for a scatter update, on rows: the pairs of a row number and a source
  row are applied one after the other; set mode overwrites the row, accumulate mode
  adds the source to it element by element.
\<close>

definition scatter_rows ::
  "bool \<Rightarrow> ('a::plus) list list \<Rightarrow> (nat \<times> 'a list) list \<Rightarrow> 'a list list" where
  "scatter_rows set_mode rows ps =
     fold (\<lambda>(k, v) rs. rs[k := (if set_mode then v else map2 (+) (rs ! k) v)]) ps rows"

text \<open>The array \<^verbatim>\<open>reshaped_y\<close> of the broadcasting branch of \<^verbatim>\<open>perform\<close>.\<close>

definition reshaped :: "gpuarray \<Rightarrow> gpuarray \<Rightarrow> gpuarray" where
  "reshaped x y =
     (if length (shape y) = length (shape x) then drop_leading_axis y
      else pad_unit_axes ((length (shape x) - 1) - length (shape y)) y)"

definition op_copy :: inc_op where
  "op_copy = \<lparr>inplace = False, set_instead_of_inc = False\<rparr>"

definition op_inplace :: inc_op where
  "op_inplace = \<lparr>inplace = True, set_instead_of_inc = False\<rparr>"

text \<open>
  The pairs of a row number and a source row that a scatter update applies to a
  destination whose rows are \<open>hd (shape x)\<close> many, in the order in which \<^verbatim>\<open>perform\<close>
  applies them: the \<open>j\<close>-th source row for the \<open>j\<close>-th index when the source has the rank
  of the destination and a leading extent other than 1, the reshaped source for every
  index otherwise.
\<close>

definition contributions ::
  "'a heap \<Rightarrow> gpuarray \<Rightarrow> gpuarray \<Rightarrow> int list \<Rightarrow> (nat \<times> 'a list) list" where
  "contributions h x y idx =
     (if length (shape y) = length (shape x) \<and> hd (shape y) \<noteq> 1
      then map (\<lambda>(j, i). (row_index (hd (shape x)) i,
                           bcast_read h (row_view y j) (tl (shape x))))
             (enumerate 0 idx)
      else map (\<lambda>i. (row_index (hd (shape x)) i,
                      bcast_read h (reshaped x y) (tl (shape x))))
             idx)"

text \<open>
  The elements that \<^verbatim>\<open>GpuIncSubtensor.perform\<close> leaves in the selected view \<open>sub\<close>: in
  set mode the source, broadcast to the view; otherwise the old elements of the view
  plus the source.
\<close>

definition new_elements :: "inc_op \<Rightarrow> ('a::plus) heap \<Rightarrow> gpuarray \<Rightarrow> gpuarray \<Rightarrow> 'a list" where
  "new_elements op h sub y =
     (if set_instead_of_inc op
      then bcast_read h (pad_unit_axes (length (shape sub) - length (shape y)) y) (shape sub)
      else map2 (+) (ga_read h sub) (bcast_read h y (shape sub)))"

text \<open>
  \<open>add_all row vs\<close> is a row after the contributions \<open>vs\<close> have been added to it one
  after the other, element by element.
\<close>

definition add_all :: "('a::plus) list \<Rightarrow> 'a list list \<Rightarrow> 'a list" where
  "add_all row vs = fold (\<lambda>v acc. map2 (+) acc v) vs row"

text \<open>
  Single-precision elements. The kernel that \<^verbatim>\<open>perform\<close> runs on a row,
  \<^verbatim>\<open>a[i] = a[i] + b\<close>, adds in the element type of the arrays; for \<^verbatim>\<open>float32\<close> arrays
  that is the addition of IEEE 754 binary32. Only the elements that are integers are
  needed: such an element is given by the integer it denotes, and the sum of two of
  them is their exact sum rounded to 24 significant bits, to the nearest representable
  value and on a tie to the one whose significand is even (the sums of the examples
  are far below the overflow threshold). \<open>excess_bits m\<close> is the number of bits by which
  a magnitude \<open>m\<close> exceeds 24 bits, and \<open>round_to_even e m\<close> rounds \<open>m\<close> to a multiple of
  \<open>2 ^ e\<close>.
\<close>

function excess_bits :: "int \<Rightarrow> nat" where
  "excess_bits m = (if m < 2 ^ 24 then 0 else Suc (excess_bits (m div 2)))"
  by pat_completeness auto
termination
  by (relation "measure nat") auto

declare excess_bits.simps [simp del]

definition round_to_even :: "nat \<Rightarrow> int \<Rightarrow> int" where
  "round_to_even e m =
     (let q = m div 2 ^ e; r = m mod 2 ^ e
      in (if 2 ^ e < 2 * r \<or> (2 * r = 2 ^ e \<and> odd q) then q + 1 else q) * 2 ^ e)"

definition f32_round :: "int \<Rightarrow> int" where
  "f32_round k = sgn k * round_to_even (excess_bits \<bar>k\<bar>) \<bar>k\<bar>"

datatype float32 = F32 int

instantiation float32 :: plus
begin

fun plus_float32 :: "float32 \<Rightarrow> float32 \<Rightarrow> float32" where
  "plus_float32 (F32 a) (F32 b) = F32 (f32_round (a + b))"

instance ..

end

text \<open>
  Single-precision examples: the zero \<open>3 \<times> 2\<close> destination and the \<open>2 \<times> 2\<close> source of
  ones; and a \<open>1 \<times> 1\<close> destination holding \<open>2^24\<close> in buffer 0 with a \<open>2 \<times> 1\<close> source
  holding \<open>1\<close> and \<open>-2^24\<close> in buffer 1.
\<close>

definition s_heap :: "float32 heap" where
  "s_heap = [[F32 0, F32 0, F32 0, F32 0, F32 0, F32 0], [F32 1, F32 1, F32 1, F32 1]]"

definition s_x :: gpuarray where
  "s_x = \<lparr>buf = 0, offset = 0, shape = [3, 2], strides = [2, 1], dtype = Float32\<rparr>"

definition s_y :: gpuarray where
  "s_y = \<lparr>buf = 1, offset = 0, shape = [2, 2], strides = [2, 1], dtype = Float32\<rparr>"

definition r_heap :: "float32 heap" where
  "r_heap = [[F32 16777216], [F32 1, F32 (- 16777216)]]"

definition r_x :: gpuarray where
  "r_x = \<lparr>buf = 0, offset = 0, shape = [1, 1], strides = [1, 1], dtype = Float32\<rparr>"

definition r_y :: gpuarray where
  "r_y = \<lparr>buf = 1, offset = 0, shape = [2, 1], strides = [1, 1], dtype = Float32\<rparr>"

section \<open>Theorems\<close>

subsection \<open>Index normalisation\<close>


lemma stb63: "- (2^63) \<le> (k::int) \<Longrightarrow> k < 2^63 \<Longrightarrow> signed_take_bit 63 k = k"
  by (simp add: signed_take_bit_int_eq_self_iff)

lemma uint_nonneg: "0 \<le> uint (w::64 word)" by simp

lemma sint_len: 
  assumes "uint (len::64 word) < 2^63" shows "sint len = uint len"
proof -
  have "signed_take_bit 63 (uint len) = uint len"
    using uint_nonneg [of len] assms by (intro stb63) linarith+
  then show ?thesis by (simp add: sint_uint)
qed

lemma sint_add_len:
  assumes "uint (len::64 word) < 2^63" "v <s 0"
  shows "sint (v + len) = sint v + uint len"
proof -
  have a: "sint len = uint len" using assms(1) by (rule sint_len)
  have b: "sint v < 0" using assms(2) by (simp add: word_sless_alt)
  have c: "- (2^63) \<le> sint v" using sint_ge [of v] by simp
  have "signed_take_bit 63 (sint v + uint len) = sint v + uint len"
    using b c uint_nonneg [of len] assms(1) by (intro stb63) linarith+
  then show ?thesis using a
    by (simp add: sint_word_ariths)
qed

lemma sint_len_minus1:
  assumes "uint (len::64 word) < 2^63"
  shows "sint (len - 1) = uint len - 1"
proof -
  have a: "sint len = uint len" using assms(1) by (rule sint_len)
  have "signed_take_bit 63 (uint len - 1) = uint len - 1"
    using uint_nonneg [of len] assms(1) by (intro stb63) linarith+
  then show ?thesis using a 
    by (simp add: sint_word_ariths)
qed

lemma le_len_nonneg:
  assumes "- 1 <s (v::64 word)"
  shows "(len \<le> v) = (uint len \<le> sint v)"
proof -
  have a: "0 \<le> sint v" using assms by (simp add: word_sless_alt)
  have b: "sint v < 2^64" using sint_lt [of v] by simp
  have "take_bit 64 (sint v) = sint v"
    using a b by (simp add: take_bit_int_eq_self)
  then have "uint v = sint v" by (simp add: uint_sint)
  then show ?thesis by (simp add: word_le_def)
qed

lemma c_bound_clamp:
  assumes L: "uint (len::64 word) < 2^63"
  shows "sint (c_bound v step len) = py_clamp (sint v) (sint step) (uint len)"
proof (cases "v <s 0")
  case True
  note add = sint_add_len [OF L True]
  have neg: "sint v < 0" using True by (simp add: word_sless_alt)
  show ?thesis
  proof (cases "v + len <s 0")
    case True
    then have "sint v + uint len < 0" using add by (simp add: word_sless_alt)
    then have lt: "sint v + uint len < 0" .
    have s1: "(if v <s 0 then v + len else v) = v + len" using \<open>v <s 0\<close> by simp
    show ?thesis
    proof (cases "step <s 0")
      case True
      have "c_bound v step len = - 1"
        using True \<open>v + len <s 0\<close> \<open>v <s 0\<close> by (simp add: c_bound_def)
      then show ?thesis using True lt neg by (simp add: py_clamp_def word_sless_alt)
    next
      case False
      have z: "- 1 <s (0::64 word)" by simp
      have "c_bound v step len = (if len \<le> 0 then len else 0)"
        using False \<open>v + len <s 0\<close> \<open>v <s 0\<close> by (simp add: c_bound_def)
      then have "c_bound v step len = 0" by (cases "len = 0") simp_all
      then show ?thesis using False lt neg by (simp add: py_clamp_def word_sless_alt)
    qed
  next
    case False
    then have ge: "0 \<le> sint v + uint len" using add by (simp add: word_sless_alt)
    then have "- 1 <s v + len" using add by (simp add: word_sless_alt)
    then show ?thesis using False \<open>v <s 0\<close> neg ge add
      by (simp add: c_bound_def py_clamp_def le_len_nonneg)
  qed
next
  case False
  then have ge: "0 \<le> sint v" by (simp add: word_sless_alt)
  then have m: "- 1 <s v" by (simp add: word_sless_alt)
  show ?thesis using False ge m
    by (auto simp add: c_bound_def py_clamp_def le_len_nonneg sint_len [OF L] sint_len_minus1 [OF L] word_sless_alt)
qed

lemma fix_indices_alt:
  "fix_indices a b c a_n b_n c_n len =
    (let step = (if c_n then 1 else c) in
     if step = 0 then Inl ValueError
     else
       let start = (if a_n then (if step <s 0 then len - 1 else 0) else c_bound a step len);
           stop = (if b_n then (if step <s 0 then - 1 else len) else c_bound b step len)
       in Inr (start, if stop <s start \<and> 0 <s step then start else stop, step))"
  unfolding fix_indices_def c_bound_def Let_def by (rule refl)

lemma py_slice_indices_alt:
  "py_slice_indices start stop step len =
    (let st = (case step of None \<Rightarrow> 1 | Some s \<Rightarrow> s) in
     if st = 0 then Inl ValueError
     else Inr (case start of None \<Rightarrow> (if st < 0 then len - 1 else 0) | Some v \<Rightarrow> py_clamp v st len,
               case stop of None \<Rightarrow> (if st < 0 then - 1 else len) | Some v \<Rightarrow> py_clamp v st len,
               st))"
  unfolding py_slice_indices_def py_clamp_def Let_def by (cases start; cases stop) simp_all

lemma slice_positions_empty:
  "0 < step \<Longrightarrow> stop \<le> i \<Longrightarrow> slice_positions i stop step = []"
  by (simp add: slice_positions.simps)

text \<open>
  Claim C1. For an axis length that fits \<^verbatim>\<open>ssize_t\<close> and a slice whose fields are
  omitted or arbitrary 64-bit signed integers, with a step that is not zero,
  \<^verbatim>\<open>fix_indices\<close> succeeds; its start and step are those of Python's reference
  normalisation (a negative bound is increased by \<open>len\<close> once, and a bound still out of
  range is clamped to \<open>-1\<close> or \<open>len - 1\<close> for a negative step and to \<open>0\<close> or \<open>len\<close>
  otherwise); its stop is the reference stop, except that an inverted range with a
  positive step has its stop moved to the start; and the triple selects exactly the
  positions that the reference triple selects.
\<close>

theorem fix_slice_matches_reference:
  assumes L: "uint len < 2 ^ 63" and nz: "step \<noteq> Some 0"
  shows "\<exists>b e st pe. fix_slice start stop step len = Inr (b, e, st) \<and>
           py_slice_indices (map_option sint start) (map_option sint stop)
              (map_option sint step) (uint len) = Inr (sint b, pe, sint st) \<and>
           sint e = (if pe < sint b \<and> 0 < sint st then sint b else pe) \<and>
           slice_positions (sint b) (sint e) (sint st) = slice_positions (sint b) pe (sint st)"
proof -
  define c where "c = (case step of None \<Rightarrow> (1::64 word) | Some s \<Rightarrow> s)"
  have c0: "c \<noteq> 0" using nz by (cases step) (auto simp: c_def)
  then have sc0: "sint c \<noteq> 0" by (simp add: signed_eq_0_iff)
  have pst: "(case map_option sint step of None \<Rightarrow> 1 | Some s \<Rightarrow> s) = sint c"
    by (cases step) (simp_all add: c_def)
  define b where "b = (case start of None \<Rightarrow> (if c <s 0 then len - 1 else 0) | Some v \<Rightarrow> c_bound v c len)"
  define e0 where "e0 = (case stop of None \<Rightarrow> (if c <s 0 then - 1 else len) | Some v \<Rightarrow> c_bound v c len)"
  define e where "e = (if e0 <s b \<and> 0 <s c then b else e0)"
  have fx: "fix_slice start stop step len = Inr (b, e, c)"
    using c0 by (cases start; cases stop; cases step)
      (simp_all add: fix_slice_def fix_idx_def fix_indices_alt Let_def b_def e0_def e_def c_def)
  have py: "py_slice_indices (map_option sint start) (map_option sint stop)
              (map_option sint step) (uint len) = Inr (sint b, sint e0, sint c)"
    unfolding py_slice_indices_alt pst Let_def using sc0
    by (cases start; cases stop)
      (simp_all add: b_def e0_def c_bound_clamp [OF L] sint_len [OF L] sint_len_minus1 [OF L] word_sless_alt)
  have se: "sint e = (if sint e0 < sint b \<and> 0 < sint c then sint b else sint e0)"
    by (simp add: e_def word_sless_alt)
  have pos: "slice_positions (sint b) (sint e) (sint c) = slice_positions (sint b) (sint e0) (sint c)"
    by (simp add: se slice_positions_empty)
  show ?thesis using fx py se pos by blast
qed

theorem fix_slice_matches_reference_witness:
  "uint (5 :: size_t) < 2 ^ 63 \<and> Some (- 1 :: ssize_t) \<noteq> Some 0 \<and>
   fix_slice None None (Some (- 1)) 5 = Inr (4, - 1, - 1) \<and>
   py_slice_indices None None (Some (- 1)) 5 = Inr (4, - 1, - 1) \<and>
   slice_positions 4 (- 1) (- 1) = [4, 3, 2, 1, 0] \<and>
   (\<exists>b e st pe. fix_slice None None (Some (- 1)) 5 = Inr (b, e, st) \<and>
      py_slice_indices (map_option sint (None :: ssize_t option))
         (map_option sint (None :: ssize_t option))
         (map_option sint (Some (- 1 :: ssize_t))) (uint (5 :: size_t))
        = Inr (sint b, pe, sint st) \<and>
      sint e = (if pe < sint b \<and> 0 < sint st then sint b else pe) \<and>
      slice_positions (sint b) (sint e) (sint st) = slice_positions (sint b) pe (sint st))"
proof -
  have h1: "uint (5 :: size_t) < 2 ^ 63" by simp
  have h2: "Some (- 1 :: ssize_t) \<noteq> Some 0" by simp
  have a: "fix_slice None None (Some (- 1)) 5 = Inr (4, - 1, - 1)" by code_simp
  have b: "py_slice_indices None None (Some (- 1)) 5 = Inr (4, - 1, - 1)" by code_simp
  have c: "slice_positions 4 (- 1) (- 1) = [4, 3, 2, 1, 0]" by code_simp
  show ?thesis
    using h1 h2 a b c fix_slice_matches_reference [OF h1 h2, of None None] by (intro conjI) assumption+
qed

lemma fix_slice_zero: "fix_slice a b (Some 0) len = Inl ValueError"
  by (cases a; cases b) (simp_all add: fix_slice_def fix_idx_def fix_indices_def)

lemma c_axes_error: "c_axes cs dims = Inl e \<Longrightarrow> e = ValueError"
proof (induction cs dims rule: c_axes.induct)
  case (1 dims)
  then show ?case by simp
next
  case (2 a b c cs dims)
  show ?case
  proof (cases "fix_slice a b c (word_of_nat (hd dims))")
    case (Inl e')
    then have "e' = ValueError"
      by (cases a; cases b; cases c)
         (auto simp: fix_slice_def fix_idx_def fix_indices_def Let_def split: if_splits)
    with Inl 2 show ?thesis by simp
  next
    case (Inr t)
    with 2 show ?thesis by (auto split: sum.splits)
  qed
next
  case (3 v cs dims)
  then show ?case by (auto simp: Let_def split: sum.splits)
qed

lemma c_axes_zero:
  "CSlice a b (Some 0) \<in> set cs \<Longrightarrow> c_axes cs dims = Inl ValueError"
proof (induction cs dims rule: c_axes.induct)
  case (1 dims)
  then show ?case by simp
next
  case (2 a' b' c' cs dims)
  show ?case
  proof (cases "fix_slice a' b' c' (word_of_nat (hd dims))")
    case (Inl e')
    then show ?thesis using c_axes_error [of "CSlice a' b' c' # cs" dims e'] by simp
  next
    case (Inr t)
    then have "CSlice a b (Some 0) \<noteq> CSlice a' b' c'" using fix_slice_zero by auto
    then have "CSlice a b (Some 0) \<in> set cs" using 2 by auto
    then show ?thesis using 2 Inr by simp
  qed
next
  case (3 v cs dims)
  then show ?case by (auto simp: Let_def)
qed

lemma c_entries_zero:
  "c_entries es indices = Inr cs \<Longrightarrow> SliceOf a b (Some (Const 0)) \<in> set es \<Longrightarrow>
   \<exists>a' b'. CSlice a' b' (Some 0) \<in> set cs"
proof (induction es indices arbitrary: cs rule: c_entries.induct)
  case (1 indices)
  then show ?case by simp
next
  case (2 a1 b1 c1 es indices)
  from 2(2) obtain a' r1 b' r2 c' r3 cs' where
    fa: "c_field a1 indices = Inr (a', r1)" and fb: "c_field b1 r1 = Inr (b', r2)"
    and fc: "c_field c1 r2 = Inr (c', r3)" and rest: "c_entries es r3 = Inr cs'"
    and cs: "cs = CSlice a' b' c' # cs'"
    by (auto split: sum.splits)
  show ?case
  proof (cases "SliceOf a b (Some (Const 0)) = SliceOf a1 b1 c1")
    case True
    then have "c' = Some 0" using fc by auto
    then show ?thesis using cs by auto
  next
    case False
    then have "SliceOf a b (Some (Const 0)) \<in> set es" using 2(3) by auto
    from "2.IH" [OF fa refl fb refl fc refl rest this] show ?thesis using cs by auto
  qed
next
  case (3 e es indices)
  from 3(2) obtain v rest cs' where
    fa: "c_scalar e indices = Inr (v, rest)" and r: "c_entries es rest = Inr cs'"
    and cs: "cs = CScalar v # cs'"
    by (auto split: sum.splits)
  have "SliceOf a b (Some (Const 0)) \<in> set es" using 3(3) by auto
  from "3.IH" [OF fa refl r this] show ?case using cs by auto
qed

lemma c_entries_full_slices:
  "c_entries (replicate k (SliceOf None None None)) indices
   = Inr (replicate k (CSlice None None None))"
  by (induction k) simp_all

lemma c_entries_padded:
  "c_entries es indices = Inr cs \<Longrightarrow>
   \<exists>cs'. c_entries (es @ replicate k (SliceOf None None None)) indices = Inr (cs @ cs')"
proof (induction es indices arbitrary: cs rule: c_entries.induct)
  case (1 indices)
  then show ?case by (simp add: c_entries_full_slices)
next
  case (2 a1 b1 c1 es indices)
  from 2(2) obtain a' r1 b' r2 c' r3 cs1 where
    fa: "c_field a1 indices = Inr (a', r1)" and fb: "c_field b1 r1 = Inr (b', r2)"
    and fc: "c_field c1 r2 = Inr (c', r3)" and rest: "c_entries es r3 = Inr cs1"
    and cs: "cs = CSlice a' b' c' # cs1"
    by (auto split: sum.splits)
  from "2.IH" [OF fa refl fb refl fc refl rest] obtain cs' where
    "c_entries (es @ replicate k (SliceOf None None None)) r3 = Inr (cs1 @ cs')" by blast
  then show ?case using fa fb fc cs by simp
next
  case (3 e es indices)
  from 3(2) obtain v rest cs1 where
    fa: "c_scalar e indices = Inr (v, rest)" and r: "c_entries es rest = Inr cs1"
    and cs: "cs = CScalar v # cs1"
    by (auto split: sum.splits)
  from "3.IH" [OF fa refl r] obtain cs' where
    "c_entries (es @ replicate k (SliceOf None None None)) rest = Inr (cs1 @ cs')" by blast
  then show ?case using fa cs by simp
qed

text \<open>
  Claim C6. A slice whose step is present and zero makes \<^verbatim>\<open>fix_indices\<close> fail with the
  \<^verbatim>\<open>ValueError\<close> ``slice step cannot be zero'', and the generated code of an index list
  that contains such a slice fails without producing a view, whether the step is
  written as the literal \<open>0\<close> or is a run-time input whose value is \<open>0\<close>: the failure is
  that \<^verbatim>\<open>ValueError\<close>, unless the list is longer than the rank of the input, which the
  generated code rejects first. An omitted step is taken to be 1 and normalisation
  succeeds.
\<close>

theorem zero_step_fails:
  "fix_slice start stop (Some 0) len = Inl ValueError \<and>
   (\<exists>b e. fix_slice start stop None len = Inr (b, e, 1)) \<and>
   (SliceOf a b (Some (Const 0)) \<in> set idx_list \<longrightarrow>
      (\<exists>e. subtensor_c_code idx_list h inp indices = Inl e)) \<and>
   (c_entries idx_list indices = Inr cs \<and> CSlice lo up (Some 0) \<in> set cs \<longrightarrow>
      subtensor_c_code idx_list h inp indices
        = Inl (if length (shape inp) < length idx_list then IndexError else ValueError))"
proof (intro conjI impI)
  show "fix_slice start stop (Some 0) len = Inl ValueError" by (rule fix_slice_zero)
next
  show "\<exists>b e. fix_slice start stop None len = Inr (b, e, 1)"
    by (cases start; cases stop) (simp_all add: fix_slice_def fix_idx_def fix_indices_alt Let_def)
next
  assume m: "SliceOf a b (Some (Const 0)) \<in> set idx_list"
  define padded where
    "padded = idx_list @ replicate (length (shape inp) - length idx_list) (SliceOf None None None)"
  have ne: "padded \<noteq> []" and mp: "SliceOf a b (Some (Const 0)) \<in> set padded"
    using m by (auto simp: padded_def)
  have eq: "subtensor_c_code idx_list h inp indices =
      (case c_entries padded indices of
         Inl e \<Rightarrow> Inl e
       | Inr cs \<Rightarrow>
           if length (shape inp) \<noteq> length padded then Inl IndexError
           else case c_axes cs (shape inp) of
                  Inl e \<Rightarrow> Inl e
                | Inr ts \<Rightarrow>
                    (case pygpu_index inp ts of Inl e \<Rightarrow> Inl e | Inr out \<Rightarrow> Inr (h, out)))"
    using ne unfolding subtensor_c_code_def Let_def padded_def [symmetric] by simp
  show "\<exists>e. subtensor_c_code idx_list h inp indices = Inl e"
  proof (cases "c_entries padded indices")
    case (Inl e)
    then show ?thesis unfolding eq by simp
  next
    case (Inr cs)
    from c_entries_zero [OF Inr mp] obtain a' b' where "CSlice a' b' (Some 0) \<in> set cs"
      by blast
    then have "c_axes cs (shape inp) = Inl ValueError" by (rule c_axes_zero)
    then show ?thesis unfolding eq using Inr by simp
  qed
next
  assume r: "c_entries idx_list indices = Inr cs \<and> CSlice lo up (Some 0) \<in> set cs"
  define padded where
    "padded = idx_list @ replicate (length (shape inp) - length idx_list) (SliceOf None None None)"
  have "cs \<noteq> []" using r by auto
  then have "idx_list \<noteq> []" using r by auto
  then have ne: "padded \<noteq> []" by (simp add: padded_def)
  have len: "length (shape inp) \<noteq> length padded \<longleftrightarrow> length (shape inp) < length idx_list"
    by (auto simp: padded_def)
  from c_entries_padded [of idx_list indices cs "length (shape inp) - length idx_list"] r
  obtain cs' where p: "c_entries padded indices = Inr (cs @ cs')"
    unfolding padded_def by blast
  have "CSlice lo up (Some 0) \<in> set (cs @ cs')" using r by simp
  then have z: "c_axes (cs @ cs') (shape inp) = Inl ValueError" by (rule c_axes_zero)
  have eq: "subtensor_c_code idx_list h inp indices =
      (case c_entries padded indices of
         Inl e \<Rightarrow> Inl e
       | Inr cs \<Rightarrow>
           if length (shape inp) \<noteq> length padded then Inl IndexError
           else case c_axes cs (shape inp) of
                  Inl e \<Rightarrow> Inl e
                | Inr ts \<Rightarrow>
                    (case pygpu_index inp ts of Inl e \<Rightarrow> Inl e | Inr out \<Rightarrow> Inr (h, out)))"
    using ne unfolding subtensor_c_code_def Let_def padded_def [symmetric] by simp
  show "subtensor_c_code idx_list h inp indices
        = Inl (if length (shape inp) < length idx_list then IndexError else ValueError)"
    unfolding eq p using z len by simp
qed

theorem zero_step_fails_witness:
  "SliceOf None None (Some (Const 0)) \<in> set [SliceOf None None (Some (Const 0)), Scalar Runtime] \<and>
   subtensor_c_code [SliceOf None None (Some (Const 0)), Scalar Runtime] ex_count ex_x [1]
     = Inl ValueError \<and>
   c_entries [Scalar Runtime, SliceOf None None (Some Runtime)] [1, 0]
     = Inr [CScalar 1, CSlice None None (Some 0)] \<and>
   CSlice None None (Some 0) \<in> set [CScalar 1, CSlice None None (Some 0)] \<and>
   subtensor_c_code [Scalar Runtime, SliceOf None None (Some Runtime)] ex_count ex_x [1, 0]
     = Inl ValueError \<and>
   fix_slice (Some 1) None (Some 0) 3 = Inl ValueError \<and>
   fix_slice (Some 1) None None 3 = Inr (1, 3, 1)"
proof -
  have m: "SliceOf None None (Some (Const 0)) \<in> set [SliceOf None None (Some (Const 0)), Scalar Runtime]"
    by simp
  have r: "subtensor_c_code [SliceOf None None (Some (Const 0)), Scalar Runtime] ex_count ex_x [1]
     = Inl ValueError" by code_simp
  have c: "c_entries [Scalar Runtime, SliceOf None None (Some Runtime)] [1, 0]
     = Inr [CScalar 1, CSlice None None (Some 0)]" by simp
  have n: "CSlice None None (Some 0) \<in> set [CScalar 1, CSlice None None (Some 0)]" by simp
  have l: "\<not> length (shape ex_x) < length [Scalar Runtime, SliceOf None None (Some Runtime)]"
    by (simp add: ex_x_def)
  have f: "fix_slice (Some 1) None None 3 = Inr (1, 3, 1)" by code_simp
  have t: "subtensor_c_code [Scalar Runtime, SliceOf None None (Some Runtime)] ex_count ex_x [1, 0]
     = Inl ValueError"
    using c n l zero_step_fails [of "Some 1" None 3 None None
        "[Scalar Runtime, SliceOf None None (Some Runtime)]" ex_count ex_x "[1, 0]"
        "[CScalar 1, CSlice None None (Some 0)]" None None]
    by simp
  show ?thesis
    using m r c n t f zero_step_fails [of "Some 1" None 3 None None
        "[SliceOf None None (Some (Const 0)), Scalar Runtime]" ex_count ex_x "[1]"]
    by simp
qed

subsection \<open>Row resolution in the accelerated kernel\<close>

lemma stb31: "- (2^31) \<le> (k::int) \<Longrightarrow> k < 2^31 \<Longrightarrow> signed_take_bit 31 k = k"
  by (simp add: signed_take_bit_int_eq_self_iff)

lemma sint_ucast_32: "sint (ucast (w::64 word) :: 32 word) = signed_take_bit 31 (sint w)"
  by (simp add: signed_ucast_eq uint_sint signed_take_bit_take_bit)

lemma sint_scast_64: "sint (scast (r::32 word) :: 64 word) = sint r"
proof -
  have "- (2^63) \<le> sint r" "sint r < 2^63"
    using sint_ge [of r] sint_lt [of r] by simp_all
  then show ?thesis by (simp add: signed_scast_eq stb63)
qed

text \<open>
  Claim C8, as amended. The kernel adds the row count to a negative index once. For a
  destination of fewer than \<open>2^31\<close> rows, every index value in \<open>[-numRows, numRows)\<close>
  resolves to the row it denotes in \<open>[0, numRows)\<close>.
\<close>

theorem x_row_in_range:
  assumes N: "uint numRowsX < 2 ^ 31"
    and lo: "- uint numRowsX \<le> sint ind" and hi: "sint ind < uint numRowsX"
  shows "sint (x_row numRowsX ind) = (if sint ind < 0 then sint ind + uint numRowsX else sint ind) \<and>
         0 \<le> sint (x_row numRowsX ind) \<and> sint (x_row numRowsX ind) < uint numRowsX"
proof -
  define r where "r = (ucast ind :: 32 word)"
  have k: "sint r = sint ind"
    unfolding r_def sint_ucast_32 using N lo hi by (intro stb31) linarith+
  show ?thesis
  proof (cases "sint ind < 0")
    case True
    then have neg: "r <s 0" using k by (simp add: word_sless_alt)
    have N63: "uint numRowsX < 2 ^ 63" using N by simp
    have "sint ((scast r :: 64 word) + numRowsX) = sint (scast r :: 64 word) + uint numRowsX"
      using N63 neg by (intro sint_add_len) (simp_all add: word_sless_alt sint_scast_64)
    then have s: "sint ((scast r :: 64 word) + numRowsX) = sint ind + uint numRowsX"
      by (simp add: sint_scast_64 k)
    have "sint (ucast ((scast r :: 64 word) + numRowsX) :: 32 word) = sint ind + uint numRowsX"
      unfolding sint_ucast_32 s using N lo hi True by (intro stb31) linarith+
    then have "sint (x_row numRowsX ind) = sint ind + uint numRowsX"
      using neg by (simp add: x_row_def r_def [symmetric] Let_def)
    then show ?thesis using True lo hi by simp
  next
    case False
    then have "\<not> r <s 0" using k by (simp add: word_sless_alt)
    then have "sint (x_row numRowsX ind) = sint ind"
      using k by (simp add: x_row_def r_def [symmetric] Let_def)
    then show ?thesis using False hi by simp
  qed
qed

theorem x_row_in_range_witness:
  "uint (3 :: size_t) < 2 ^ 31 \<and> - uint (3 :: size_t) \<le> sint (- 2 :: 64 word) \<and>
   sint (- 2 :: 64 word) < uint (3 :: size_t) \<and> sint (x_row 3 (- 2)) = 1"
proof -
  have h1: "uint (3 :: size_t) < 2 ^ 31" by simp
  have h2: "- uint (3 :: size_t) \<le> sint (- 2 :: 64 word)" by simp
  have h3: "sint (- 2 :: 64 word) < uint (3 :: size_t)" by simp
  show ?thesis using h1 h2 h3 x_row_in_range [OF h1 h2 h3] by simp
qed

text \<open>
  Claim C8 as stated fails: with three rows the index \<open>-5\<close> resolves to row \<open>-2\<close>, not
  to a row in \<open>[0, 3)\<close>, and the index \<open>7\<close> stays \<open>7\<close>.
\<close>

theorem x_row_not_modulo_counterexample:
  "\<not> (0 \<le> sint (x_row 3 (- 5)) \<and> sint (x_row 3 (- 5)) < 3) \<and>
   sint (x_row 3 (- 5)) = - 2 \<and> sint (x_row 3 7) = 7"
  by code_simp

subsection \<open>The store and the copies\<close>

lemma length_view_offsets: "length (view_offsets off ns ss) = prod_list ns"
proof (induction ns arbitrary: off ss)
  case Nil
  then show ?case by simp
next
  case (Cons n ns)
  show ?case
    by (simp add: length_concat comp_def Cons.IH sum_list_triv)
qed

lemma concat_blocks:
  "concat (map (\<lambda>i. map (\<lambda>k. f (i * m + k)) [0..<m]) [0..<n]) = map f [0..<n * m]"
proof (induction n)
  case 0
  then show ?case by simp
next
  case (Suc n)
  have e: "Suc n * m = n * m + m" by simp
  have a: "[0..<n * m + m] = [0..<n * m] @ [n * m..<n * m + m]"
    by (rule upt_add_eq_append) simp
  have "[n * m..<n * m + m] = map (\<lambda>k. n * m + k) [0..<m]"
    by (rule nth_equalityI) simp_all
  then have b: "map f [n * m..<n * m + m] = map (\<lambda>k. f (n * m + k)) [0..<m]"
    by (simp add: comp_def)
  have "concat (map (\<lambda>i. map (\<lambda>k. f (i * m + k)) [0..<m]) [0..<Suc n])
        = concat (map (\<lambda>i. map (\<lambda>k. f (i * m + k)) [0..<m]) [0..<n]) @ map (\<lambda>k. f (n * m + k)) [0..<m]"
    by simp
  also have "\<dots> = map f [0..<n * m] @ map f [n * m..<n * m + m]"
    by (simp only: Suc.IH b)
  also have "\<dots> = map f [0..<Suc n * m]"
    by (simp only: e a map_append)
  finally show ?case .
qed

lemma view_offsets_c_strides:
  "view_offsets off ns (c_strides ns) = map (\<lambda>k. off + int k) [0..<prod_list ns]"
proof (induction ns arbitrary: off)
  case Nil
  then show ?case by simp
next
  case (Cons n ns)
  have "view_offsets off (n # ns) (c_strides (n # ns))
        = concat (map (\<lambda>i. map (\<lambda>k. off + int (i * prod_list ns + k)) [0..<prod_list ns]) [0..<n])"
    by (simp add: Cons.IH add.assoc)
  also have "\<dots> = map (\<lambda>k. off + int k) [0..<n * prod_list ns]"
    by (rule concat_blocks)
  finally show ?case by simp
qed

lemma ga_read_copy:
  assumes "ga_copy h a = (h', a')"
  shows "ga_read h' a' = ga_read h a"
proof -
  have len: "length (ga_read h a) = prod_list (shape a)"
    by (simp add: ga_read_def ga_offsets_def length_view_offsets)
  have h': "h' = h @ [ga_read h a]" and a': "a' = a\<lparr>buf := length h, offset := 0, strides := c_strides (shape a)\<rparr>"
    using assms by (simp_all add: ga_copy_def)
  have "ga_read h' a' = map (\<lambda>k. ga_read h a ! k) [0..<prod_list (shape a)]"
    unfolding h' a' by (simp add: ga_read_def [of "h @ _"] ga_offsets_def view_offsets_c_strides comp_def)
  also have "\<dots> = ga_read h a"
    using len map_nth [of "ga_read h a"] by simp
  finally show ?thesis .
qed

text \<open>
  Claim C10. With an empty index vector \<^verbatim>\<open>perform\<close> writes no element: in place it
  returns the given array over the unchanged store; otherwise it returns a new buffer,
  behind the unchanged old store, that holds the same elements in the same shape.
\<close>

theorem adv_perform_empty_idx:
  "(inplace op \<longrightarrow> adv_perform op h x y [] = Inr (h, x)) \<and>
   (\<not> inplace op \<longrightarrow>
      (\<exists>h' out. adv_perform op h x y [] = Inr (h', out) \<and>
         take (length h) h' = h \<and> buf out = length h \<and> shape out = shape x \<and>
         ga_read h' out = ga_read h x))"
proof (intro conjI impI)
  assume "inplace op"
  then show "adv_perform op h x y [] = Inr (h, x)" by (simp add: adv_perform_def)
next
  assume n: "\<not> inplace op"
  obtain h' out where c: "ga_copy h x = (h', out)" by (cases "ga_copy h x")
  have "adv_perform op h x y [] = Inr (h', out)" using n c by (simp add: adv_perform_def)
  moreover have "take (length h) h' = h" "buf out = length h" "shape out = shape x"
    using c by (auto simp: ga_copy_def)
  moreover have "ga_read h' out = ga_read h x" using c by (rule ga_read_copy)
  ultimately show "\<exists>h' out. adv_perform op h x y [] = Inr (h', out) \<and>
         take (length h) h' = h \<and> buf out = length h \<and> shape out = shape x \<and>
         ga_read h' out = ga_read h x" by blast
qed

theorem adv_perform_empty_idx_witness:
  "inplace op_inplace \<and> \<not> inplace op_copy \<and>
   adv_perform op_inplace ex_count ex_x ex_y [] = Inr (ex_count, ex_x) \<and>
   adv_perform op_copy ex_count ex_x ex_y []
     = Inr (ex_count @ [[0, 1, 2, 3, 4, 5]], ex_x\<lparr>buf := 2\<rparr>) \<and>
   (\<exists>h' out. adv_perform op_copy ex_count ex_x ex_y [] = Inr (h', out) \<and>
         take (length ex_count) h' = ex_count \<and> buf out = length ex_count \<and>
         shape out = shape ex_x \<and> ga_read h' out = ga_read ex_count ex_x)"
proof -
  have i: "inplace op_inplace" and n: "\<not> inplace op_copy"
    by (simp_all add: op_inplace_def op_copy_def)
  have c: "adv_perform op_copy ex_count ex_x ex_y []
     = Inr (ex_count @ [[0, 1, 2, 3, 4, 5]], ex_x\<lparr>buf := 2\<rparr>)" by code_simp
  show ?thesis
    using i n c adv_perform_empty_idx [of op_inplace ex_count ex_x ex_y]
      adv_perform_empty_idx [of op_copy ex_count ex_x ex_y]
    by simp
qed

subsection \<open>The \<^verbatim>\<open>inplace\<close> flag\<close>

lemma frame_refl: "frame k h h"
  by (simp add: frame_def)

lemma frame_trans: "frame k h h1 \<Longrightarrow> frame k h1 h2 \<Longrightarrow> frame k h h2"
  by (auto simp: frame_def)

lemma frame_append: "frame k h (h @ bs)"
  by (simp add: frame_def nth_append)

lemma frame_ga_write: "frame (buf a) h (ga_write h a vs)"
  by (simp add: frame_def ga_write_def)

lemma broadcast_view_buf: "broadcast_view b t = Inr b' \<Longrightarrow> buf b' = buf b"
  by (auto simp: broadcast_view_def split: option.splits)

lemma elemwise_iadd_frame: "elemwise_iadd bc h a b = Inr h' \<Longrightarrow> frame (buf a) h h'"
  by (auto simp: elemwise_iadd_def frame_ga_write split: if_splits sum.splits)

lemma ga_setarray_frame: "ga_setarray h a v = Inr h' \<Longrightarrow> frame (buf a) h h'"
  by (auto simp: ga_setarray_def frame_ga_write split: if_splits sum.splits)

lemma ga_getitem_buf: "ga_getitem x i = Inr xi \<Longrightarrow> buf xi = buf x"
  by (auto simp: ga_getitem_def Let_def split: list.splits if_splits)

lemma ga_setitem_frame: "ga_setitem h x i v = Inr h' \<Longrightarrow> frame (buf x) h h'"
  by (auto simp: ga_setitem_def split: sum.splits dest!: ga_getitem_buf ga_setarray_frame)

lemma set_paired_frame: "set_paired x y h ji = Inr h' \<Longrightarrow> frame (buf x) h h'"
  by (auto simp: set_paired_def split: prod.splits sum.splits dest: ga_setitem_frame)

lemma inc_paired_frame: "inc_paired x y h ji = Inr h' \<Longrightarrow> frame (buf x) h h'"
  by (auto simp: inc_paired_def split: prod.splits sum.splits dest!: ga_getitem_buf elemwise_iadd_frame)

lemma set_bcast_frame: "set_bcast x r h i = Inr h' \<Longrightarrow> frame (buf x) h h'"
  by (auto simp: set_bcast_def dest: ga_setitem_frame)

lemma inc_bcast_frame: "inc_bcast x r h i = Inr h' \<Longrightarrow> frame (buf x) h h'"
  by (auto simp: inc_bcast_def split: sum.splits dest!: ga_getitem_buf elemwise_iadd_frame)

lemma for_each_frame:
  assumes "\<And>s b s'. body s b = Inr s' \<Longrightarrow> frame k s s'"
  shows "for_each body h bs = Inr h' \<Longrightarrow> frame k h h'"
proof (induction bs arbitrary: h)
  case Nil
  then show ?case by (simp add: frame_refl)
next
  case (Cons b bs)
  then obtain h1 where b: "body h b = Inr h1" and r: "for_each body h1 bs = Inr h'"
    by (auto split: sum.splits)
  from assms [OF b] Cons.IH [OF r] show ?case by (rule frame_trans)
qed

lemma loop_frames:
  "for_each (set_paired x y) h bs = Inr h' \<Longrightarrow> frame (buf x) h h'"
  "for_each (inc_paired x y) h bs2 = Inr h' \<Longrightarrow> frame (buf x) h h'"
  "for_each (set_bcast x r) h bs3 = Inr h' \<Longrightarrow> frame (buf x) h h'"
  "for_each (inc_bcast x r) h bs3 = Inr h' \<Longrightarrow> frame (buf x) h h'"
  by (erule for_each_frame [rotated],
      erule set_paired_frame inc_paired_frame set_bcast_frame inc_bcast_frame)+

lemma adv_perform_frame:
  assumes "adv_perform op h x0 y idx = Inr (h', out)"
  shows "out = snd (if \<not> inplace op then ga_copy h x0 else (h, x0)) \<and>
         frame (buf out) (fst (if \<not> inplace op then ga_copy h x0 else (h, x0))) h'"
proof -
  obtain h1 x where c: "(if \<not> inplace op then ga_copy h x0 else (h, x0)) = (h1, x)"
    by (cases "if \<not> inplace op then ga_copy h x0 else (h, x0)")
  have "out = x \<and> frame (buf x) h1 h'"
    using assms unfolding adv_perform_def c
    by (auto simp: Let_def frame_refl split: if_splits sum.splits intro: loop_frames)
  then show ?thesis using c by simp
qed

lemma getitem_keys_buf: "ga_getitem_keys x ks = Inr v \<Longrightarrow> buf v = buf x"
  by (auto simp: ga_getitem_keys_def split: sum.splits)

lemma ga_setitem_keys_frame: "ga_setitem_keys h x ks v = Inr h' \<Longrightarrow> frame (buf x) h h'"
  by (auto simp: ga_setitem_keys_def split: sum.splits dest!: getitem_keys_buf ga_setarray_frame)

lemma elemwise2_add_frame: "elemwise2_add h a b = Inr (h', t) \<Longrightarrow> frame k h h'"
  by (auto simp: elemwise2_add_def frame_append split: if_splits)

lemma inc_perform_frame:
  assumes "inc_perform op idx_list h x0 y inputs = Inr (h', out)"
  shows "out = snd (if \<not> inplace op then ga_copy h x0 else (h, x0)) \<and>
         frame (buf out) (fst (if \<not> inplace op then ga_copy h x0 else (h, x0))) h'"
proof -
  obtain h1 x where c: "(if \<not> inplace op then ga_copy h x0 else (h, x0)) = (h1, x)"
    by (cases "if \<not> inplace op then ga_copy h x0 else (h, x0)")
  have "out = x \<and> frame (buf x) h1 h'"
    using assms unfolding inc_perform_def c
    by (auto split: if_splits sum.splits
             dest!: getitem_keys_buf elemwise_iadd_frame ga_setitem_keys_frame
             intro: frame_trans [OF elemwise2_add_frame])
  then show ?thesis using c by simp
qed

lemma frame_copy_prefix:
  assumes "frame (length h) (h @ [d]) h'"
  shows "take (length h) h' = h"
proof (rule nth_equalityI)
  show "length (take (length h) h') = length h" using assms by (simp add: frame_def)
next
  fix i assume "i < length (take (length h) h')"
  then have i: "i < length h" by simp
  then have "h' ! i = (h @ [d]) ! i" using assms by (simp add: frame_def)
  then show "take (length h) h' ! i = h ! i" using i by (simp add: nth_append)
qed

subsection \<open>Copy or view in \<^verbatim>\<open>GpuSubtensor.c_code\<close>\<close>

lemma pygpu_index_buf: "pygpu_index a ts = Inr out \<Longrightarrow> buf out = buf a"
  by (auto simp: pygpu_index_def split: sum.splits)

text \<open>
  Claim C5, as amended. The index list is padded with full slices up to the rank of the
  input before it is tested for emptiness. Only an empty list on an input without axes
  is answered by a copy: a new buffer behind the unchanged old store, holding the same
  elements. Every other successful indexing, an empty list on an input with axes
  included, leaves the store as it is and returns a view over the buffer of the input.
\<close>

theorem subtensor_copy_or_view:
  "(idx_list = [] \<and> shape inp = [] \<longrightarrow>
      subtensor_c_code idx_list h inp indices = Inr (ga_copy h inp) \<and>
      buf (snd (ga_copy h inp)) = length h \<and>
      take (length h) (fst (ga_copy h inp)) = h \<and>
      ga_read (fst (ga_copy h inp)) (snd (ga_copy h inp)) = ga_read h inp) \<and>
   (\<not> (idx_list = [] \<and> shape inp = []) \<longrightarrow>
      subtensor_c_code idx_list h inp indices = Inr (h', out) \<longrightarrow>
      h' = h \<and> buf out = buf inp)"
proof -
  have a: "subtensor_c_code idx_list h inp indices = Inr (ga_copy h inp)"
    if "idx_list = [] \<and> shape inp = []"
    using that by (simp add: subtensor_c_code_def)
  have b: "buf (snd (ga_copy h inp)) = length h" "take (length h) (fst (ga_copy h inp)) = h"
    by (simp_all add: ga_copy_def)
  have c: "ga_read (fst (ga_copy h inp)) (snd (ga_copy h inp)) = ga_read h inp"
    by (rule ga_read_copy) simp
  have d: "h' = h \<and> buf out = buf inp"
    if ne: "\<not> (idx_list = [] \<and> shape inp = [])"
      and r: "subtensor_c_code idx_list h inp indices = Inr (h', out)"
  proof -
    define padded where
      "padded = idx_list @ replicate (length (shape inp) - length idx_list) (SliceOf None None None)"
    have "padded \<noteq> []" using ne by (auto simp: padded_def)
    then have "length padded \<noteq> 0" by simp
    with r show ?thesis
      unfolding subtensor_c_code_def Let_def padded_def [symmetric]
      by (auto split: sum.splits if_splits dest: pygpu_index_buf)
  qed
  from a b c d show ?thesis by blast
qed

theorem subtensor_copy_or_view_witness:
  "subtensor_c_code [] ex_count (ex_x\<lparr>offset := 3, shape := [], strides := []\<rparr>) []
     = Inr (ex_count @ [[3]], ex_x\<lparr>buf := 2, offset := 0, shape := [], strides := []\<rparr>) \<and>
   subtensor_c_code [SliceOf None None (Some (Const (- 1))), Scalar Runtime] ex_count ex_x [1]
     = Inr (ex_count, ex_x\<lparr>offset := 5, shape := [3], strides := [- 2]\<rparr>) \<and>
   buf (ex_x\<lparr>offset := 5, shape := [3], strides := [- 2]\<rparr>) = buf ex_x"
proof -
  have e: "([] :: idx_entry list) = [] \<and> shape (ex_x\<lparr>offset := 3, shape := [], strides := []\<rparr>) = []"
    by simp
  have c: "ga_copy ex_count (ex_x\<lparr>offset := 3, shape := [], strides := []\<rparr>)
      = (ex_count @ [[3]], ex_x\<lparr>buf := 2, offset := 0, shape := [], strides := []\<rparr>)"
    by code_simp
  have n: "\<not> ([SliceOf None None (Some (Const (- 1))), Scalar Runtime] = [] \<and> shape ex_x = [])"
    by simp
  have v: "subtensor_c_code [SliceOf None None (Some (Const (- 1))), Scalar Runtime] ex_count ex_x [1]
     = Inr (ex_count, ex_x\<lparr>offset := 5, shape := [3], strides := [- 2]\<rparr>)"
    by code_simp
  show ?thesis
    using e c n v
      subtensor_copy_or_view [of "[]" "ex_x\<lparr>offset := 3, shape := [], strides := []\<rparr>" ex_count "[]"]
      subtensor_copy_or_view [of "[SliceOf None None (Some (Const (- 1))), Scalar Runtime]" ex_x
         ex_count "[1]" ex_count "ex_x\<lparr>offset := 5, shape := [3], strides := [- 2]\<rparr>"]
    by simp
qed

text \<open>
  Claim C5 as stated fails: the empty index list on the \<open>3 \<times> 2\<close> array returns the
  array over its own buffer and allocates nothing, where a copy would have allocated
  buffer 2.
\<close>

theorem empty_index_list_view_counterexample:
  "subtensor_c_code [] ex_count ex_x [] = Inr (ex_count, ex_x) \<and>
   subtensor_c_code [] ex_count ex_x [] \<noteq> Inr (ga_copy ex_count ex_x)"
  by code_simp

subsection \<open>Falling back from the accelerated path\<close>

lemma ga_getitem_error: "ga_getitem a i = Inl e \<Longrightarrow> e = IndexError"
  by (auto simp: ga_getitem_def Let_def split: list.splits if_splits)

lemma ga_getitem_dtype: "ga_getitem a i = Inr b \<Longrightarrow> dtype b = dtype a"
  by (auto simp: ga_getitem_def Let_def split: list.splits if_splits)

lemma broadcast_view_error: "broadcast_view b t = Inl e \<Longrightarrow> e = ValueError"
  by (auto simp: broadcast_view_def split: option.splits)

lemma elemwise_iadd_error: "elemwise_iadd bc h a b = Inl e \<Longrightarrow> e = ValueError"
  by (auto simp: elemwise_iadd_def split: if_splits sum.splits dest: broadcast_view_error)

lemma ga_setarray_error: "ga_setarray h a v = Inl e \<Longrightarrow> e = ValueError"
  by (auto simp: ga_setarray_def split: if_splits sum.splits dest: broadcast_view_error)

lemma ga_setitem_error: "ga_setitem h x i v = Inl e \<Longrightarrow> e = IndexError \<or> e = ValueError"
  by (auto simp: ga_setitem_def split: sum.splits dest: ga_getitem_error ga_setarray_error)

lemma body_errors:
  "set_paired x y h ji = Inl e \<Longrightarrow> e \<noteq> NotImplementedError"
  "inc_paired x y h ji = Inl e \<Longrightarrow> e \<noteq> NotImplementedError"
  "set_bcast x r h i = Inl e \<Longrightarrow> e \<noteq> NotImplementedError"
  "inc_bcast x r h i = Inl e \<Longrightarrow> e \<noteq> NotImplementedError"
  by (auto simp: set_paired_def inc_paired_def set_bcast_def inc_bcast_def
           split: prod.splits sum.splits
           dest: ga_getitem_error ga_setitem_error elemwise_iadd_error)

lemma for_each_error:
  assumes "\<And>s b e. body s b = Inl e \<Longrightarrow> e \<noteq> NotImplementedError"
  shows "for_each body s bs \<noteq> Inl (NotImplementedError, s')"
proof (induction bs arbitrary: s)
  case Nil
  then show ?case by simp
next
  case (Cons b bs)
  then show ?case using assms [of s b] by (auto split: sum.splits)
qed

lemma loop_errors:
  "for_each (set_paired x y) h bs \<noteq> Inl (NotImplementedError, s)"
  "for_each (inc_paired x y) h bs \<noteq> Inl (NotImplementedError, s)"
  "for_each (set_bcast x r) h bs3 \<noteq> Inl (NotImplementedError, s)"
  "for_each (inc_bcast x r) h bs3 \<noteq> Inl (NotImplementedError, s)"
  by (rule for_each_error, erule body_errors)+

lemma kernel_error:
  "getInplElemwiseAdditionKernel a b = Inl e \<Longrightarrow> dtype a = Float16 \<or> dtype b = Float16"
  by (auto simp: getInplElemwiseAdditionKernel_def split: if_splits)

lemma adv_perform_not_implemented:
  assumes "adv_perform op h x y idx = Inl (NotImplementedError, s)"
  shows "\<not> set_instead_of_inc op \<and> (dtype x = Float16 \<or> dtype y = Float16)"
proof -
  obtain h1 x1 where c: "(if \<not> inplace op then ga_copy h x else (h, x)) = (h1, x1)"
    by (cases "if \<not> inplace op then ga_copy h x else (h, x)")
  then have dx: "dtype x1 = dtype x" by (auto simp: ga_copy_def split: if_splits)
  have dy: "dtype (drop_leading_axis y) = dtype y" "\<And>k. dtype (pad_unit_axes k y) = dtype y"
    by (simp_all add: drop_leading_axis_def pad_unit_axes_def)
  show ?thesis
    using assms unfolding adv_perform_def c
    by (auto simp: Let_def dx dy loop_errors split: if_splits sum.splits
        dest!: ga_getitem_error ga_getitem_dtype kernel_error)
qed

lemma accelerated_example:
  "dev20_c_code 2 op_copy ex_heap ex_x ex_y [0, - 1]
     = Inr (ex_heap @ [[1, 1, 0, 0, 1, 1]], ex_x\<lparr>buf := 2\<rparr>)"
  by code_simp

lemma accelerated_out_of_bounds:
  "dev20_c_code 2 op_inplace ex_heap ex_x ex_y [0, 7]
     = Inl (OutOfBounds, [[1, 1, 0, 0, 0, 0], [1, 1, 1, 1]])"
  by code_simp

text \<open>
  Claim C7, as amended. When the accelerated path is not eligible (set mode, ranks of
  destination and source differ, destination rank not 2, or compute capability below
  2), the outcome of the scatter update is exactly the outcome of the sequential
  \<^verbatim>\<open>perform\<close>: the refusal of \<^verbatim>\<open>c_code\<close> is not what the caller sees. The errors of
  \<^verbatim>\<open>perform\<close> itself are: a \<^verbatim>\<open>NotImplementedError\<close> can still reach the caller, and
  only in accumulate mode with a half-precision operand.
\<close>

theorem fallback_runs_perform:
  assumes "set_instead_of_inc op \<or> length (shape x) \<noteq> length (shape y) \<or>
           length (shape x) \<noteq> 2 \<or> compute_capability < 2"
  shows "scatter_update compute_capability op h x y ind = adv_perform op h x y (map sint ind) \<and>
         (\<forall>s. scatter_update compute_capability op h x y ind = Inl (NotImplementedError, s) \<longrightarrow>
            \<not> set_instead_of_inc op \<and> (dtype x = Float16 \<or> dtype y = Float16))"
proof -
  have "dev20_c_code compute_capability op h x y ind = Inl (NotImplementedError, h)"
    using assms by (simp add: dev20_c_code_def)
  then have e: "scatter_update compute_capability op h x y ind = adv_perform op h x y (map sint ind)"
    by (simp add: scatter_update_def)
  then show ?thesis using adv_perform_not_implemented [of op h x y "map sint ind"] by simp
qed

theorem fallback_runs_perform_witness:
  "(set_instead_of_inc op_copy \<or> length (shape ex_x) \<noteq> length (shape ex_y) \<or>
      length (shape ex_x) \<noteq> 2 \<or> (1::nat) < 2) \<and>
   scatter_update 1 op_copy ex_heap ex_x ex_y [0, 0]
     = adv_perform op_copy ex_heap ex_x ex_y (map sint [0, 0]) \<and>
   scatter_update 1 op_copy ex_heap ex_x ex_y [0, 0]
     = Inr (ex_heap @ [[2, 2, 0, 0, 0, 0]], ex_x\<lparr>buf := 2\<rparr>)"
proof -
  have a: "set_instead_of_inc op_copy \<or> length (shape ex_x) \<noteq> length (shape ex_y) \<or>
      length (shape ex_x) \<noteq> 2 \<or> (1::nat) < 2" by simp
  have r: "scatter_update 1 op_copy ex_heap ex_x ex_y [0, 0]
     = Inr (ex_heap @ [[2, 2, 0, 0, 0, 0]], ex_x\<lparr>buf := 2\<rparr>)" by code_simp
  show ?thesis using a r fallback_runs_perform [OF a, of ex_heap "[0, 0]"] by simp
qed

text \<open>
  Claim C7 as stated fails: on a device of compute capability 1, accumulating
  half-precision arrays is not eligible for the accelerated path, and the fallback
  raises \<^verbatim>\<open>NotImplementedError\<close> instead of completing the update.
\<close>

theorem fallback_float16_counterexample:
  "(1::nat) < 2 \<and>
   scatter_update 1 op_copy ex_heap (ex_x\<lparr>dtype := Float16\<rparr>) (ex_y\<lparr>dtype := Float16\<rparr>) [0, 0]
     = Inl (NotImplementedError, ex_heap @ [[0, 0, 0, 0, 0, 0]])"
  by code_simp

subsection \<open>Scatter updates on rows\<close>

lemma store_at_Nil [simp]: "store_at d [] vs = d" "store_at d ps [] = d"
  by (simp_all add: store_at_def)

lemma store_at_Cons [simp]:
  "store_at d (p # ps) (v # vs) = store_at (d[nat p := v]) ps vs"
  by (simp add: store_at_def)

lemma length_store_at [simp]: "length (store_at d ps vs) = length d"
proof (induction ps arbitrary: d vs)
  case Nil
  then show ?case by simp
next
  case (Cons p ps)
  then show ?case by (cases vs) simp_all
qed

lemma store_at_other:
  "q \<notin> nat ` set ps \<Longrightarrow> store_at d ps vs ! q = d ! q"
proof (induction ps arbitrary: d vs)
  case Nil
  then show ?case by simp
next
  case (Cons p ps)
  then show ?case by (cases vs) auto
qed

lemma store_at_hit:
  assumes "distinct (map nat ps)" "length vs = length ps" "\<forall>p \<in> set ps. nat p < length d"
    and "j < length ps"
  shows "store_at d ps vs ! nat (ps ! j) = vs ! j"
  using assms
proof (induction ps arbitrary: d vs j)
  case Nil
  then show ?case by simp
next
  case (Cons p ps)
  then obtain v vs' where vs: "vs = v # vs'" by (cases vs) auto
  show ?case
  proof (cases j)
    case 0
    have "nat p \<notin> nat ` set ps" using Cons.prems(1) by auto
    then have "store_at (d[nat p := v]) ps vs' ! nat p = d[nat p := v] ! nat p"
      by (rule store_at_other)
    then show ?thesis using 0 vs Cons.prems(3) by simp
  next
    case (Suc j')
    have "store_at (d[nat p := v]) ps vs' ! nat (ps ! j') = vs' ! j'"
      using Cons.prems Suc vs by (intro Cons.IH) auto
    then show ?thesis using Suc vs by simp
  qed
qed

lemma distinct_nat_offsets:
  assumes "distinct ps" "\<forall>p \<in> set ps. (0::int) \<le> p"
  shows "distinct (map nat ps)"
  using assms by (auto simp: distinct_map inj_on_def eq_nat_nat_iff)

lemma ga_read_write_same:
  assumes v: "ga_valid h a" and d: "distinct (ga_offsets a)"
    and l: "length vs = length (ga_offsets a)"
  shows "ga_read (ga_write h a vs) a = vs"
proof (rule nth_equalityI)
  show "length (ga_read (ga_write h a vs) a) = length vs"
    using l by (simp add: ga_read_def)
next
  fix j assume "j < length (ga_read (ga_write h a vs) a)"
  then have j: "j < length (ga_offsets a)" by (simp add: ga_read_def)
  have nn: "\<forall>p \<in> set (ga_offsets a). 0 \<le> p" and bd: "\<forall>p \<in> set (ga_offsets a). nat p < length (h ! buf a)"
    and b: "buf a < length h"
    using v by (auto simp: ga_valid_def)
  have "store_at (h ! buf a) (ga_offsets a) vs ! nat (ga_offsets a ! j) = vs ! j"
    using distinct_nat_offsets [OF d nn] l bd j by (rule store_at_hit)
  then show "ga_read (ga_write h a vs) a ! j = vs ! j"
    using j b by (simp add: ga_read_def ga_write_def)
qed

lemma ga_read_write_other_buf:
  "buf b \<noteq> buf a \<Longrightarrow> ga_read (ga_write h a vs) b = ga_read h b"
  by (simp add: ga_read_def ga_write_def)

lemma ga_read_write_disjoint:
  assumes "buf b = buf a"
    and nn: "\<forall>p \<in> set (ga_offsets a) \<union> set (ga_offsets b). 0 \<le> p"
    and dj: "set (ga_offsets a) \<inter> set (ga_offsets b) = {}"
  shows "ga_read (ga_write h a vs) b = ga_read h b"
proof (cases "buf a < length h")
  case True
  have "store_at (h ! buf a) (ga_offsets a) vs ! nat q = h ! buf a ! nat q"
    if q: "q \<in> set (ga_offsets b)" for q
  proof (rule store_at_other)
    show "nat q \<notin> nat ` set (ga_offsets a)"
    proof
      assume "nat q \<in> nat ` set (ga_offsets a)"
      then obtain p where p: "p \<in> set (ga_offsets a)" "nat q = nat p" by auto
      then have "q = p" using nn q by (auto simp: eq_nat_nat_iff)
      then show False using p q dj by auto
    qed
  qed
  then show ?thesis using True assms(1) by (simp add: ga_read_def ga_write_def)
next
  case False
  then show ?thesis by (simp add: ga_write_def list_update_beyond)
qed

lemma ga_valid_write: "ga_valid h a \<Longrightarrow> ga_valid (ga_write h b vs) a"
  by (cases "buf a = buf b") (auto simp: ga_valid_def ga_write_def)

lemma distinct_concat_nth:
  "distinct (concat xss) \<Longrightarrow> i < length xss \<Longrightarrow> distinct (xss ! i)"
  by (induction xss arbitrary: i) (auto simp: nth_Cons split: nat.splits)

lemma disjoint_concat_nth:
  "distinct (concat xss) \<Longrightarrow> i < length xss \<Longrightarrow> j < length xss \<Longrightarrow> i \<noteq> j \<Longrightarrow>
   set (xss ! i) \<inter> set (xss ! j) = {}"
proof (induction xss arbitrary: i j)
  case Nil
  then show ?case by simp
next
  case (Cons xs xss)
  show ?case
  proof (cases i)
    case 0
    then obtain j' where j: "j = Suc j'" using Cons.prems(4) by (cases j) auto
    then have "xss ! j' \<in> set xss" using Cons.prems(3) by simp
    then show ?thesis using 0 j Cons.prems(1) by auto
  next
    case (Suc i')
    show ?thesis
    proof (cases j)
      case 0
      have "xss ! i' \<in> set xss" using Suc Cons.prems(2) by simp
      then show ?thesis using 0 Suc Cons.prems(1) by auto
    next
      case (Suc j')
      then show ?thesis using \<open>i = Suc i'\<close> Cons.prems Cons.IH [of i' j'] by simp
    qed
  qed
qed

lemma ga_offsets_rows:
  assumes "shape a = n # ns"
  shows "ga_offsets a = concat (map (\<lambda>r. ga_offsets (row_view a r)) [0..<n])"
  using assms by (simp add: ga_offsets_def row_view_def)

lemma row_offsets_subset:
  assumes "shape a = n # ns" "r < n"
  shows "set (ga_offsets (row_view a r)) \<subseteq> set (ga_offsets a)"
  using assms by (auto simp: ga_offsets_rows [OF assms(1)])

lemma row_view_simps [simp]:
  "buf (row_view a r) = buf a" "shape (row_view a r) = tl (shape a)"
  "strides (row_view a r) = tl (strides a)" "dtype (row_view a r) = dtype a"
  by (simp_all add: row_view_def)

lemma row_valid:
  assumes "ga_valid h a" "shape a = n # ns" "r < n"
  shows "ga_valid h (row_view a r)"
  using assms row_offsets_subset [OF assms(2,3)] by (auto simp: ga_valid_def)

lemma length_ga_offsets: "length (ga_offsets a) = prod_list (shape a)"
  by (simp add: ga_offsets_def length_view_offsets)

lemma write_row:
  assumes v: "ga_valid h a" and d: "distinct (ga_offsets a)" and s: "shape a = n # ns"
    and k: "k < n" and l: "length vs = prod_list ns"
  shows "rows_of (ga_write h (row_view a k) vs) a = (rows_of h a)[k := vs]"
proof (rule nth_equalityI)
  show "length (rows_of (ga_write h (row_view a k) vs) a) = length ((rows_of h a)[k := vs])"
    by (simp add: rows_of_def)
next
  fix r assume "r < length (rows_of (ga_write h (row_view a k) vs) a)"
  then have r: "r < n" using s by (simp add: rows_of_def)
  let ?xss = "map (\<lambda>r. ga_offsets (row_view a r)) [0..<n]"
  have dc: "distinct (concat ?xss)" using d ga_offsets_rows [OF s] by simp
  have nn: "\<forall>p \<in> set (ga_offsets a). 0 \<le> p" using v by (auto simp: ga_valid_def)
  show "rows_of (ga_write h (row_view a k) vs) a ! r = (rows_of h a)[k := vs] ! r"
  proof (cases "r = k")
    case True
    have "distinct (?xss ! k)" using dc k by (intro distinct_concat_nth) simp_all
    then have dk: "distinct (ga_offsets (row_view a k))" using k by simp
    have "ga_read (ga_write h (row_view a k) vs) (row_view a k) = vs"
      using row_valid [OF v s k] dk l s by (intro ga_read_write_same) (simp_all add: length_ga_offsets)
    then show ?thesis using True r s by (simp add: rows_of_def)
  next
    case False
    have "set (?xss ! k) \<inter> set (?xss ! r) = {}"
      using dc k r False by (intro disjoint_concat_nth) simp_all
    then have dj: "set (ga_offsets (row_view a k)) \<inter> set (ga_offsets (row_view a r)) = {}"
      using k r by simp
    have "\<forall>p \<in> set (ga_offsets (row_view a k)) \<union> set (ga_offsets (row_view a r)). 0 \<le> p"
      using nn row_offsets_subset [OF s k] row_offsets_subset [OF s r] by auto
    then have "ga_read (ga_write h (row_view a k) vs) (row_view a r) = ga_read h (row_view a r)"
      using dj by (intro ga_read_write_disjoint) simp_all
    then show ?thesis using False r s by (simp add: rows_of_def)
  qed
qed

lemma ga_getitem_row:
  assumes "shape a = n # ns" "- int n \<le> i" "i < int n"
  shows "ga_getitem a i = Inr (row_view a (row_index n i))"
  using assms by (simp add: ga_getitem_def row_view_def row_index_def Let_def)

lemma row_index_less: "- int n \<le> i \<Longrightarrow> i < int n \<Longrightarrow> row_index n i < n"
  unfolding row_index_def by (cases "i < 0") (simp_all add: nat_less_iff)

lemma row_index_nat [simp]: "row_index n (int j) = j"
  by (simp add: row_index_def)

lemma bcast_strides_length:
  "bcast_strides ns ms ss = Some r \<Longrightarrow> length ms = length ns"
  by (induction ns ms ss arbitrary: r rule: bcast_strides.induct)
     (auto split: option.splits if_splits)

lemma bcast_ok_rank: "bcast_ok v ns \<Longrightarrow> length (shape v) = length ns"
  by (auto simp: bcast_ok_def dest: bcast_strides_length)

lemma bcast_ok_view:
  assumes "bcast_ok v ns"
  obtains v' where "broadcast_view v ns = Inr v'" "shape v' = ns" "buf v' = buf v"
    "bcast_read h v ns = ga_read h v'"
  using assms by (auto simp: bcast_ok_def broadcast_view_def bcast_read_def)

lemma length_bcast_read: "bcast_ok v ns \<Longrightarrow> length (bcast_read h v ns) = prod_list ns"
  by (erule bcast_ok_view [where h = h]) (simp add: ga_read_def length_ga_offsets)

lemma pad_unit_axes_0 [simp]: "pad_unit_axes 0 v = v"
  by (simp add: pad_unit_axes_def)

lemma bcast_read_cong:
  "s ! buf v = h ! buf v \<Longrightarrow> bcast_read s v ns = bcast_read h v ns"
  by (auto simp: bcast_read_def broadcast_view_def ga_read_def split: option.splits)

lemma elemwise_iadd_row:
  assumes "bcast_ok v (shape a)"
  shows "elemwise_iadd True h a v
         = Inr (ga_write h a (map2 (+) (ga_read h a) (bcast_read h v (shape a))))"
  using assms by (auto simp: elemwise_iadd_def elim: bcast_ok_view [where h = h])

lemma ga_setarray_row:
  assumes "bcast_ok v (shape a)"
  shows "ga_setarray h a v = Inr (ga_write h a (bcast_read h v (shape a)))"
  using assms bcast_ok_rank [OF assms]
  by (auto simp: ga_setarray_def elim: bcast_ok_view [where h = h])

lemma row_write_step:
  assumes v: "ga_valid s x" and d: "distinct (ga_offsets x)" and sh: "shape x = n # ns"
    and k: "k < n" and l: "length vs = prod_list ns" and nb: "b \<noteq> buf x"
  shows "ga_valid (ga_write s (row_view x k) vs) x \<and>
         ga_write s (row_view x k) vs ! b = s ! b \<and>
         rows_of (ga_write s (row_view x k) vs) x = (rows_of s x)[k := vs]"
proof (intro conjI)
  show "ga_valid (ga_write s (row_view x k) vs) x" using v by (rule ga_valid_write)
  show "ga_write s (row_view x k) vs ! b = s ! b" using nb by (simp add: ga_write_def)
  show "rows_of (ga_write s (row_view x k) vs) x = (rows_of s x)[k := vs]"
    using v d sh k l by (rule write_row)
qed

lemma for_each_rows:
  assumes step: "\<And>s b. b \<in> set bs \<Longrightarrow> I s \<Longrightarrow>
                   \<exists>s'. body s b = Inr s' \<and> I s' \<and> R s' = G b (R s)"
    and init: "I h"
  shows "\<exists>h'. for_each body h bs = Inr h' \<and> I h' \<and> R h' = fold G bs (R h)"
  using assms
proof (induction bs arbitrary: h)
  case Nil
  then show ?case by simp
next
  case (Cons b bs)
  from Cons.prems(1) [of b h] Cons.prems(2)
  obtain s' where s': "body h b = Inr s'" "I s'" "R s' = G b (R h)" by auto
  have "\<exists>h'. for_each body s' bs = Inr h' \<and> I h' \<and> R h' = fold G bs (R s')"
    using Cons.prems(1) s'(2) by (intro Cons.IH) auto
  then show ?case using s' by auto
qed

lemma rows_of_nth:
  "shape x = n # ns \<Longrightarrow> k < n \<Longrightarrow> rows_of s x ! k = ga_read s (row_view x k)"
  by (simp add: rows_of_def)

lemma length_row_read:
  "shape x = n # ns \<Longrightarrow> length (ga_read s (row_view x k)) = prod_list ns"
  by (simp add: ga_read_def length_ga_offsets)

lemma bcast_ok_row: "bcast_ok (row_view y j) ns = bcast_ok (row_view y 0) ns"
  by (simp add: bcast_ok_def)

lemma inc_paired_step:
  assumes sx: "shape x = n # ns" and sy: "shape y = m # ms" and j: "j < m"
    and lo: "- int n \<le> i" and hi: "i < int n" and ok: "bcast_ok (row_view y 0) ns"
  shows "inc_paired x y s (j, i)
         = Inr (ga_write s (row_view x (row_index n i))
                  (map2 (+) (rows_of s x ! row_index n i) (bcast_read s (row_view y j) ns)))"
proof -
  have gx: "ga_getitem x i = Inr (row_view x (row_index n i))"
    using sx lo hi by (rule ga_getitem_row)
  have gy: "ga_getitem y (int j) = Inr (row_view y j)"
    using ga_getitem_row [OF sy, of "int j"] j by simp
  have okj: "bcast_ok (row_view y j) (shape (row_view x (row_index n i)))"
    using ok sx by (simp add: bcast_ok_row [of y j])
  show ?thesis
    using sx row_index_less [OF lo hi]
    by (simp add: inc_paired_def gx gy elemwise_iadd_row [OF okj] rows_of_nth)
qed

lemma set_paired_step:
  assumes sx: "shape x = n # ns" and sy: "shape y = m # ms" and j: "j < m"
    and lo: "- int n \<le> i" and hi: "i < int n" and ok: "bcast_ok (row_view y 0) ns"
  shows "set_paired x y s (j, i)
         = Inr (ga_write s (row_view x (row_index n i)) (bcast_read s (row_view y j) ns))"
proof -
  have gx: "ga_getitem x i = Inr (row_view x (row_index n i))"
    using sx lo hi by (rule ga_getitem_row)
  have gy: "ga_getitem y (int j) = Inr (row_view y j)"
    using ga_getitem_row [OF sy, of "int j"] j by simp
  have okj: "bcast_ok (row_view y j) (shape (row_view x (row_index n i)))"
    using ok sx by (simp add: bcast_ok_row [of y j])
  show ?thesis
    using sx by (simp add: set_paired_def ga_setitem_def gx gy ga_setarray_row [OF okj])
qed

lemma inc_bcast_step:
  assumes sx: "shape x = n # ns"
    and lo: "- int n \<le> i" and hi: "i < int n" and ok: "bcast_ok ry ns"
  shows "inc_bcast x ry s i
         = Inr (ga_write s (row_view x (row_index n i))
                  (map2 (+) (rows_of s x ! row_index n i) (bcast_read s ry ns)))"
proof -
  have gx: "ga_getitem x i = Inr (row_view x (row_index n i))"
    using sx lo hi by (rule ga_getitem_row)
  have okj: "bcast_ok ry (shape (row_view x (row_index n i)))" using ok sx by simp
  show ?thesis
    using sx row_index_less [OF lo hi]
    by (simp add: inc_bcast_def gx elemwise_iadd_row [OF okj] rows_of_nth)
qed

lemma set_bcast_step:
  assumes sx: "shape x = n # ns"
    and lo: "- int n \<le> i" and hi: "i < int n" and ok: "bcast_ok ry ns"
  shows "set_bcast x ry s i
         = Inr (ga_write s (row_view x (row_index n i)) (bcast_read s ry ns))"
proof -
  have gx: "ga_getitem x i = Inr (row_view x (row_index n i))"
    using sx lo hi by (rule ga_getitem_row)
  have okj: "bcast_ok ry (shape (row_view x (row_index n i)))" using ok sx by simp
  show ?thesis
    using sx by (simp add: set_bcast_def ga_setitem_def gx ga_setarray_row [OF okj])
qed

lemma paired_loop_rows:
  fixes h :: "('a::plus) heap"
  assumes v: "ga_valid h x" and d: "distinct (ga_offsets x)" and nb: "buf y \<noteq> buf x"
    and sx: "shape x = n # ns" and sy: "shape y = m # ms"
    and ok: "bcast_ok (row_view y 0) ns"
    and bs: "\<forall>(j, i) \<in> set bs. j < m \<and> - int n \<le> i \<and> i < int n"
  shows "\<exists>h'. for_each (if sm then set_paired x y else inc_paired x y) h bs = Inr h' \<and>
           (ga_valid h' x \<and> h' ! buf y = h ! buf y) \<and>
           rows_of h' x = scatter_rows sm (rows_of h x)
             (map (\<lambda>(j, i). (row_index n i, bcast_read h (row_view y j) ns)) bs)"
proof -
  define G where "G = (\<lambda>(j, i) rs. rs[row_index n i :=
      (if sm then bcast_read h (row_view y j) ns
       else map2 (+) (rs ! row_index n i) (bcast_read h (row_view y j) ns))])"
  have step: "\<exists>s'. (if sm then set_paired x y else inc_paired x y) s b = Inr s' \<and>
                 (ga_valid s' x \<and> s' ! buf y = h ! buf y) \<and> rows_of s' x = G b (rows_of s x)"
    if b: "b \<in> set bs" and I: "ga_valid s x \<and> s ! buf y = h ! buf y" for s b
  proof -
    obtain j i where ji: "b = (j, i)" by (cases b)
    have j: "j < m" and lo: "- int n \<le> i" and hi: "i < int n" using bs b ji by auto
    let ?k = "row_index n i"
    have k: "?k < n" using lo hi by (rule row_index_less)
    have src: "bcast_read s (row_view y j) ns = bcast_read h (row_view y j) ns"
      using I by (intro bcast_read_cong) simp
    define vs where "vs = (if sm then bcast_read h (row_view y j) ns
       else map2 (+) (rows_of s x ! ?k) (bcast_read h (row_view y j) ns))"
    have l: "length vs = prod_list ns"
      using ok sx k
      by (simp add: vs_def length_bcast_read bcast_ok_row [of y j] rows_of_nth length_row_read)
    have body: "(if sm then set_paired x y else inc_paired x y) s b
                = Inr (ga_write s (row_view x ?k) vs)"
      using set_paired_step [OF sx sy j lo hi ok, of s] inc_paired_step [OF sx sy j lo hi ok, of s]
      by (simp add: ji vs_def src)
    from row_write_step [OF _ d sx k l nb, of s] I
    have "ga_valid (ga_write s (row_view x ?k) vs) x"
      "ga_write s (row_view x ?k) vs ! buf y = s ! buf y"
      "rows_of (ga_write s (row_view x ?k) vs) x = (rows_of s x)[?k := vs]"
      by simp_all
    then show ?thesis using body I by (simp add: G_def ji vs_def)
  qed
  have "\<exists>h'. for_each (if sm then set_paired x y else inc_paired x y) h bs = Inr h' \<and>
           (ga_valid h' x \<and> h' ! buf y = h ! buf y) \<and> rows_of h' x = fold G bs (rows_of h x)"
    by (rule for_each_rows [where I = "\<lambda>s. ga_valid s x \<and> s ! buf y = h ! buf y"
          and R = "\<lambda>s. rows_of s x"]) (use step v in auto)
  moreover have "fold G bs (rows_of h x) = scatter_rows sm (rows_of h x)
             (map (\<lambda>(j, i). (row_index n i, bcast_read h (row_view y j) ns)) bs)"
    unfolding scatter_rows_def fold_map
    by (rule arg_cong [where f = "\<lambda>g. fold g bs (rows_of h x)"]) (auto simp: G_def fun_eq_iff)
  ultimately show ?thesis by simp
qed

lemma bcast_loop_rows:
  fixes h :: "('a::plus) heap"
  assumes v: "ga_valid h x" and d: "distinct (ga_offsets x)" and nb: "buf ry \<noteq> buf x"
    and sx: "shape x = n # ns"
    and ok: "bcast_ok ry ns"
    and bs: "\<forall>i \<in> set bs. - int n \<le> i \<and> i < int n"
  shows "\<exists>h'. for_each (if sm then set_bcast x ry else inc_bcast x ry) h bs = Inr h' \<and>
           (ga_valid h' x \<and> h' ! buf ry = h ! buf ry) \<and>
           rows_of h' x = scatter_rows sm (rows_of h x)
             (map (\<lambda>i. (row_index n i, bcast_read h ry ns)) bs)"
proof -
  define G where "G = (\<lambda>i rs. rs[row_index n i :=
      (if sm then bcast_read h ry ns
       else map2 (+) (rs ! row_index n i) (bcast_read h ry ns))])"
  have step: "\<exists>s'. (if sm then set_bcast x ry else inc_bcast x ry) s i = Inr s' \<and>
                 (ga_valid s' x \<and> s' ! buf ry = h ! buf ry) \<and> rows_of s' x = G i (rows_of s x)"
    if b: "i \<in> set bs" and I: "ga_valid s x \<and> s ! buf ry = h ! buf ry" for s i
  proof -
    have lo: "- int n \<le> i" and hi: "i < int n" using bs b by auto
    let ?k = "row_index n i"
    have k: "?k < n" using lo hi by (rule row_index_less)
    have src: "bcast_read s ry ns = bcast_read h ry ns"
      using I by (intro bcast_read_cong) simp
    define vs where "vs = (if sm then bcast_read h ry ns
       else map2 (+) (rows_of s x ! ?k) (bcast_read h ry ns))"
    have l: "length vs = prod_list ns"
      using ok sx k
      by (simp add: vs_def length_bcast_read rows_of_nth length_row_read)
    have body: "(if sm then set_bcast x ry else inc_bcast x ry) s i
                = Inr (ga_write s (row_view x ?k) vs)"
      using set_bcast_step [OF sx lo hi ok, of s] inc_bcast_step [OF sx lo hi ok, of s]
      by (simp add: vs_def src)
    from row_write_step [OF _ d sx k l nb, of s] I
    have "ga_valid (ga_write s (row_view x ?k) vs) x"
      "ga_write s (row_view x ?k) vs ! buf ry = s ! buf ry"
      "rows_of (ga_write s (row_view x ?k) vs) x = (rows_of s x)[?k := vs]"
      by simp_all
    then show ?thesis using body I by (simp add: G_def vs_def)
  qed
  have "\<exists>h'. for_each (if sm then set_bcast x ry else inc_bcast x ry) h bs = Inr h' \<and>
           (ga_valid h' x \<and> h' ! buf ry = h ! buf ry) \<and> rows_of h' x = fold G bs (rows_of h x)"
    by (rule for_each_rows [where I = "\<lambda>s. ga_valid s x \<and> s ! buf ry = h ! buf ry"
          and R = "\<lambda>s. rows_of s x"]) (use step v in auto)
  moreover have "fold G bs (rows_of h x) = scatter_rows sm (rows_of h x)
             (map (\<lambda>i. (row_index n i, bcast_read h ry ns)) bs)"
    unfolding scatter_rows_def fold_map
    by (rule arg_cong [where f = "\<lambda>g. fold g bs (rows_of h x)"]) (auto simp: G_def fun_eq_iff)
  ultimately show ?thesis by simp
qed

lemma length_c_strides [simp]: "length (c_strides ns) = length ns"
  by (induction ns) simp_all

lemma ga_read_rows:
  assumes "shape a = n # ns"
  shows "ga_read h a = concat (rows_of h a)"
  using assms
  by (simp add: ga_read_def [of h a] ga_offsets_rows [OF assms] map_concat rows_of_def
        ga_read_def [of h "row_view a _"] comp_def)

lemma length_rows_of: "length (rows_of h a) = hd (shape a)"
  by (simp add: rows_of_def)

lemma rows_of_lengths:
  "r \<in> set (rows_of h a) \<Longrightarrow> length r = prod_list (tl (shape a))"
  by (auto simp: rows_of_def ga_read_def length_ga_offsets)

lemma copy_facts:
  assumes c: "ga_copy h a = (h1, a1)"
  shows "ga_valid h1 a1" "distinct (ga_offsets a1)" "shape a1 = shape a" "buf a1 = length h"
    "dtype a1 = dtype a" "\<And>b. b < length h \<Longrightarrow> h1 ! b = h ! b"
proof -
  have h1: "h1 = h @ [ga_read h a]"
    and a1: "a1 = a\<lparr>buf := length h, offset := 0, strides := c_strides (shape a)\<rparr>"
    using c by (simp_all add: ga_copy_def)
  have offs: "ga_offsets a1 = map (\<lambda>k. 0 + int k) [0..<prod_list (shape a)]"
    by (simp add: a1 ga_offsets_def view_offsets_c_strides)
  have len: "length (ga_read h a) = prod_list (shape a)"
    by (simp add: ga_read_def length_ga_offsets)
  show "ga_valid h1 a1"
    using len by (auto simp: ga_valid_def offs) (simp_all add: h1 a1)
  show "distinct (ga_offsets a1)"
    by (simp add: offs distinct_map inj_on_def)
  show "shape a1 = shape a" "buf a1 = length h" "dtype a1 = dtype a"
    by (simp_all add: a1)
  show "\<And>b. b < length h \<Longrightarrow> h1 ! b = h ! b" by (simp add: h1 nth_append)
qed

lemma copy_rows:
  assumes c: "ga_copy h a = (h1, a1)" and s: "shape a = n # ns"
  shows "rows_of h1 a1 = rows_of h a"
proof (rule concat_injective)
  have s1: "shape a1 = n # ns" using copy_facts(3) [OF c] s by simp
  show "concat (rows_of h1 a1) = concat (rows_of h a)"
    using ga_read_copy [OF c] ga_read_rows [OF s, of h] ga_read_rows [OF s1, of h1] by simp
  show "length (rows_of h1 a1) = length (rows_of h a)"
    using s s1 by (simp add: length_rows_of)
  show "\<forall>(r, r') \<in> set (zip (rows_of h1 a1) (rows_of h a)). length r = length r'"
  proof clarify
    fix r r' assume "(r, r') \<in> set (zip (rows_of h1 a1) (rows_of h a))"
    then have "r \<in> set (rows_of h1 a1)" "r' \<in> set (rows_of h a)"
      by (auto dest: set_zip_leftD set_zip_rightD)
    then show "length r = length r'" using s s1 by (simp add: rows_of_lengths)
  qed
qed

lemma adv_prepare:
  assumes wf: "inplace op \<longrightarrow> ga_valid h x \<and> distinct (ga_offsets x) \<and> buf y \<noteq> buf x"
    and yh: "buf y < length h" and sx: "shape x = n # ns"
  obtains h1 x1 where "(if \<not> inplace op then ga_copy h x else (h, x)) = (h1, x1)"
    "ga_valid h1 x1" "distinct (ga_offsets x1)" "buf y \<noteq> buf x1" "shape x1 = n # ns"
    "dtype x1 = dtype x" "rows_of h1 x1 = rows_of h x" "h1 ! buf y = h ! buf y"
proof (cases "inplace op")
  case True
  then show ?thesis using that [of h x] wf sx by simp
next
  case False
  obtain h1 x1 where c: "ga_copy h x = (h1, x1)" by (cases "ga_copy h x")
  show ?thesis
    using that [of h1 x1] False c copy_facts [OF c] copy_rows [OF c sx] yh sx by simp
qed

lemma kernel_ok:
  "dtype a \<noteq> Float16 \<Longrightarrow> dtype b \<noteq> Float16 \<Longrightarrow> getInplElemwiseAdditionKernel a b = Inr ()"
  by (simp add: getInplElemwiseAdditionKernel_def)

lemma adv_perform_paired:
  fixes h :: "('a::plus) heap"
  assumes wf: "inplace op \<longrightarrow> ga_valid h x \<and> distinct (ga_offsets x) \<and> buf y \<noteq> buf x"
    and yh: "buf y < length h" and sx: "shape x = n # ns"
    and ne: "idx \<noteq> []" and rg: "\<forall>i \<in> set idx. - int n \<le> i \<and> i < int n"
    and ft: "\<not> set_instead_of_inc op \<longrightarrow> dtype x \<noteq> Float16 \<and> dtype y \<noteq> Float16"
    and rk: "length (shape y) = length (shape x)" and h1: "hd (shape y) \<noteq> 1"
    and m: "hd (shape y) = length idx"
    and ok: "bcast_ok (row_view y 0) ns"
  shows "\<exists>h' out. adv_perform op h x y idx = Inr (h', out) \<and> shape out = shape x \<and>
           rows_of h' out = scatter_rows (set_instead_of_inc op) (rows_of h x)
             (map (\<lambda>(j, i). (row_index n i, bcast_read h (row_view y j) ns)) (enumerate 0 idx))"
proof -
  from adv_prepare [OF wf yh sx] obtain h1 x1 where
    p: "(if \<not> inplace op then ga_copy h x else (h, x)) = (h1, x1)"
    and v1: "ga_valid h1 x1" and d1: "distinct (ga_offsets x1)" and nb: "buf y \<noteq> buf x1"
    and sx1: "shape x1 = n # ns" and dt: "dtype x1 = dtype x"
    and rows1: "rows_of h1 x1 = rows_of h x" and hy: "h1 ! buf y = h ! buf y"
    by blast
  obtain ms where sy: "shape y = length idx # ms"
    using rk sx m by (cases "shape y") auto
  have ynil: "shape y \<noteq> []" using sy by simp
  obtain i0 where "i0 \<in> set idx" using ne by (cases idx) auto
  then have n0: "0 < n" using rg by force
  have m0: "0 < length idx" using ne by simp
  have enum: "\<forall>(j, i) \<in> set (enumerate 0 idx). j < length idx \<and> - int n \<le> i \<and> i < int n"
    using rg by (auto simp: in_set_enumerate_eq)
  have src: "(\<lambda>(j, i). (row_index n i, bcast_read h1 (row_view y j) ns))
           = (\<lambda>(j, i). (row_index n i, bcast_read h (row_view y j) ns))"
    using hy by (auto simp: fun_eq_iff intro!: bcast_read_cong)
  have gx: "ga_getitem x1 0 = Inr (row_view x1 0)"
    using ga_getitem_row [OF sx1, of 0] n0 by (simp add: row_index_def)
  have gy: "ga_getitem y 0 = Inr (row_view y 0)"
    using ga_getitem_row [OF sy, of 0] m0 by (simp add: row_index_def)
  show ?thesis
  proof (cases "set_instead_of_inc op")
    case True
    from paired_loop_rows [OF v1 d1 nb sx1 sy ok enum, of True]
    obtain h' where "for_each (set_paired x1 y) h1 (enumerate 0 idx) = Inr h'"
      "rows_of h' x1 = scatter_rows True (rows_of h1 x1)
         (map (\<lambda>(j, i). (row_index n i, bcast_read h1 (row_view y j) ns)) (enumerate 0 idx))"
      by auto
    then show ?thesis
      using True ne rk h1 m ynil sx sx1
      by (simp add: adv_perform_def p src rows1)
  next
    case False
    have k: "getInplElemwiseAdditionKernel (row_view x1 0) (row_view y 0) = Inr ()"
      using ft False dt by (intro kernel_ok) simp_all
    from paired_loop_rows [OF v1 d1 nb sx1 sy ok enum, of False]
    obtain h' where "for_each (inc_paired x1 y) h1 (enumerate 0 idx) = Inr h'"
      "rows_of h' x1 = scatter_rows False (rows_of h1 x1)
         (map (\<lambda>(j, i). (row_index n i, bcast_read h1 (row_view y j) ns)) (enumerate 0 idx))"
      by auto
    then show ?thesis
      using False ne rk h1 m ynil sx sx1
      by (simp add: adv_perform_def p src rows1 gx gy k)
  qed
qed

lemma reshaped_simps [simp]: "buf (reshaped x y) = buf y" "dtype (reshaped x y) = dtype y"
  by (simp_all add: reshaped_def drop_leading_axis_def pad_unit_axes_def)

lemma adv_perform_bcast:
  fixes h :: "('a::plus) heap"
  assumes wf: "inplace op \<longrightarrow> ga_valid h x \<and> distinct (ga_offsets x) \<and> buf y \<noteq> buf x"
    and yh: "buf y < length h" and sx: "shape x = n # ns"
    and ne: "idx \<noteq> []" and rg: "\<forall>i \<in> set idx. - int n \<le> i \<and> i < int n"
    and ft: "\<not> set_instead_of_inc op \<longrightarrow> dtype x \<noteq> Float16 \<and> dtype y \<noteq> Float16"
    and br: "\<not> (length (shape y) = length (shape x) \<and> hd (shape y) \<noteq> 1)"
    and ok: "bcast_ok (reshaped x y) ns"
  shows "\<exists>h' out. adv_perform op h x y idx = Inr (h', out) \<and> shape out = shape x \<and>
           rows_of h' out = scatter_rows (set_instead_of_inc op) (rows_of h x)
             (map (\<lambda>i. (row_index n i, bcast_read h (reshaped x y) ns)) idx)"
proof -
  from adv_prepare [OF wf yh sx] obtain h1 x1 where
    p: "(if \<not> inplace op then ga_copy h x else (h, x)) = (h1, x1)"
    and v1: "ga_valid h1 x1" and d1: "distinct (ga_offsets x1)" and nb: "buf y \<noteq> buf x1"
    and sx1: "shape x1 = n # ns" and dt: "dtype x1 = dtype x"
    and rows1: "rows_of h1 x1 = rows_of h x" and hy: "h1 ! buf y = h ! buf y"
    by blast
  have re: "reshaped x1 y = reshaped x y" using sx sx1 by (simp add: reshaped_def)
  have ynil: "\<not> (length (shape y) = length (shape x1) \<and> shape y = [])"
    using sx1 by auto
  obtain i0 where "i0 \<in> set idx" using ne by (cases idx) auto
  then have n0: "0 < n" using rg by force
  have src: "bcast_read h1 (reshaped x y) ns = bcast_read h (reshaped x y) ns"
    using hy by (intro bcast_read_cong) simp
  have gx: "ga_getitem x1 0 = Inr (row_view x1 0)"
    using ga_getitem_row [OF sx1, of 0] n0 by (simp add: row_index_def)
  have nb': "buf (reshaped x y) \<noteq> buf x1" using nb by simp
  have br1: "\<not> (length (shape y) = length (shape x1) \<and> hd (shape y) \<noteq> 1)"
    using br sx sx1 by simp
  have unf: "adv_perform op h x y idx =
      (if set_instead_of_inc op then
         (case for_each (set_bcast x1 (reshaped x y)) h1 idx of
            Inl e \<Rightarrow> Inl e | Inr h2 \<Rightarrow> Inr (h2, x1))
       else
         (case ga_getitem x1 0 of
            Inl e \<Rightarrow> Inl (e, h1)
          | Inr x_0 \<Rightarrow>
              (case getInplElemwiseAdditionKernel x_0 (reshaped x y) of
                 Inl e \<Rightarrow> Inl (e, h1)
               | Inr k \<Rightarrow>
                   (case for_each (inc_bcast x1 (reshaped x y)) h1 idx of
                      Inl e \<Rightarrow> Inl e | Inr h2 \<Rightarrow> Inr (h2, x1)))))"
    unfolding adv_perform_def p prod.case Let_def reshaped_def [of x1 y, symmetric] re
    using ne br1 sx1 by auto
  show ?thesis
  proof (cases "set_instead_of_inc op")
    case True
    from bcast_loop_rows [OF v1 d1 nb' sx1 ok rg, of True]
    obtain h' where "for_each (set_bcast x1 (reshaped x y)) h1 idx = Inr h'"
      "rows_of h' x1 = scatter_rows True (rows_of h1 x1)
         (map (\<lambda>i. (row_index n i, bcast_read h1 (reshaped x y) ns)) idx)"
      by auto
    then show ?thesis using True sx sx1 by (simp add: unf src rows1)
  next
    case False
    have k: "getInplElemwiseAdditionKernel (row_view x1 0) (reshaped x y) = Inr ()"
      using ft False dt by (intro kernel_ok) simp_all
    from bcast_loop_rows [OF v1 d1 nb' sx1 ok rg, of False]
    obtain h' where "for_each (inc_bcast x1 (reshaped x y)) h1 idx = Inr h'"
      "rows_of h' x1 = scatter_rows False (rows_of h1 x1)
         (map (\<lambda>i. (row_index n i, bcast_read h1 (reshaped x y) ns)) idx)"
      by auto
    then show ?thesis using False sx sx1 by (simp add: unf src rows1 gx k)
  qed
qed

lemma scatter_rows_Cons:
  "scatter_rows sm rows ((k, v) # ps)
   = scatter_rows sm (rows[k := (if sm then v else map2 (+) (rows ! k) v)]) ps"
  by (simp add: scatter_rows_def)

lemma scatter_rows_add_nth:
  fixes rows :: "('a::comm_monoid_add) list list"
  assumes "\<forall>(k, v) \<in> set ps. k < length rows \<and> length v = P"
    and "\<forall>q < length rows. length (rows ! q) = P"
    and "r < length rows" and "c < P"
  shows "scatter_rows False rows ps ! r ! c
         = rows ! r ! c + (\<Sum>(k, v)\<leftarrow>ps. if k = r then v ! c else 0)"
  using assms
proof (induction ps arbitrary: rows)
  case Nil
  then show ?case by (simp add: scatter_rows_def)
next
  case (Cons p ps)
  obtain k v where p: "p = (k, v)" by (cases p)
  have k: "k < length rows" and lv: "length v = P" using Cons.prems(1) p by auto
  let ?rows = "rows[k := map2 (+) (rows ! k) v]"
  have len: "\<forall>q < length ?rows. length (?rows ! q) = P"
    using Cons.prems(2) lv k by (auto simp: nth_list_update)
  have "scatter_rows False ?rows ps ! r ! c
        = ?rows ! r ! c + (\<Sum>(k, v)\<leftarrow>ps. if k = r then v ! c else 0)"
    using Cons.prems len by (intro Cons.IH) auto
  moreover have "?rows ! r ! c = rows ! r ! c + (if k = r then v ! c else 0)"
    using Cons.prems(2,3,4) lv k by (auto simp: nth_list_update)
  ultimately show ?case by (simp add: p scatter_rows_Cons add.assoc)
qed

lemma sum_list_perm:
  fixes g :: "'b \<Rightarrow> ('a::comm_monoid_add)"
  assumes "mset ps = mset qs"
  shows "sum_list (map g ps) = sum_list (map g qs)"
proof -
  have "sum_list (map g ps) = sum_mset (image_mset g (mset ps))"
    by (simp add: sum_mset_sum_list [symmetric])
  also have "\<dots> = sum_mset (image_mset g (mset qs))" using assms by simp
  also have "\<dots> = sum_list (map g qs)" by (simp add: sum_mset_sum_list [symmetric])
  finally show ?thesis .
qed

lemma paired_sum:
  fixes h :: "('a::comm_monoid_add) heap"
  assumes v: "ga_valid h x" and d: "distinct (ga_offsets x)" and nb: "buf y \<noteq> buf x"
    and sx: "shape x = n # ns" and sy: "shape y = length idx # ms"
    and ok: "bcast_ok (row_view y 0) ns"
    and rg: "\<forall>i \<in> set idx. - int n \<le> i \<and> i < int n"
    and perm: "mset ps = mset (enumerate 0 idx)"
  shows "\<exists>h'. for_each (inc_paired x y) h ps = Inr h' \<and>
           (\<forall>r < n. \<forall>c < prod_list ns.
              rows_of h' x ! r ! c = rows_of h x ! r ! c +
                (\<Sum>(j, i)\<leftarrow>enumerate 0 idx.
                   if row_index n i = r then bcast_read h (row_view y j) ns ! c else 0))"
proof -
  let ?\<alpha> = "\<lambda>(j, i). (row_index n i, bcast_read h (row_view y j) ns)"
  have sets: "set ps = set (enumerate 0 idx)" using perm by (rule mset_eq_setD)
  have bs: "\<forall>(j, i) \<in> set ps. j < length idx \<and> - int n \<le> i \<and> i < int n"
    using rg by (auto simp: sets in_set_enumerate_eq)
  from paired_loop_rows [OF v d nb sx sy ok bs, of False]
  obtain h' where loop: "for_each (inc_paired x y) h ps = Inr h'"
    and rows: "rows_of h' x = scatter_rows False (rows_of h x) (map ?\<alpha> ps)"
    by auto
  have "rows_of h' x ! r ! c = rows_of h x ! r ! c +
          (\<Sum>(j, i)\<leftarrow>enumerate 0 idx.
             if row_index n i = r then bcast_read h (row_view y j) ns ! c else 0)"
    if r: "r < n" and c: "c < prod_list ns" for r c
  proof -
    have okj: "bcast_ok (row_view y j) ns" for j using ok bcast_ok_row [of y j ns] by simp
    have a: "\<forall>(k, v) \<in> set (map ?\<alpha> ps). k < length (rows_of h x) \<and> length v = prod_list ns"
      using bs sx
      by (auto simp: length_rows_of row_index_less length_bcast_read [OF okj])
    have b: "\<forall>q < length (rows_of h x). length (rows_of h x ! q) = prod_list ns"
      using sx by (simp add: length_rows_of rows_of_nth length_row_read)
    have "scatter_rows False (rows_of h x) (map ?\<alpha> ps) ! r ! c
          = rows_of h x ! r ! c + (\<Sum>(k, v)\<leftarrow>map ?\<alpha> ps. if k = r then v ! c else 0)"
      using a b r c sx by (intro scatter_rows_add_nth) (simp_all add: length_rows_of)
    also have "(\<Sum>(k, v)\<leftarrow>map ?\<alpha> ps. if k = r then v ! c else 0)
          = (\<Sum>(j, i)\<leftarrow>ps. if row_index n i = r then bcast_read h (row_view y j) ns ! c else 0)"
      by (simp add: comp_def case_prod_unfold cong: if_cong)
    also have "\<dots> = (\<Sum>(j, i)\<leftarrow>enumerate 0 idx.
             if row_index n i = r then bcast_read h (row_view y j) ns ! c else 0)"
      using perm by (rule sum_list_perm)
    finally show ?thesis using rows by simp
  qed
  then show ?thesis using loop by blast
qed

lemma bcast_sum:
  fixes h :: "('a::comm_monoid_add) heap"
  assumes v: "ga_valid h x" and d: "distinct (ga_offsets x)" and nb: "buf ry \<noteq> buf x"
    and sx: "shape x = n # ns"
    and ok: "bcast_ok ry ns"
    and rg: "\<forall>i \<in> set idx. - int n \<le> i \<and> i < int n"
    and perm: "mset js = mset idx"
  shows "\<exists>h'. for_each (inc_bcast x ry) h js = Inr h' \<and>
           (\<forall>r < n. \<forall>c < prod_list ns.
              rows_of h' x ! r ! c = rows_of h x ! r ! c +
                (\<Sum>i\<leftarrow>idx. if row_index n i = r then bcast_read h ry ns ! c else 0))"
proof -
  let ?\<alpha> = "\<lambda>i. (row_index n i, bcast_read h ry ns)"
  have sets: "set js = set idx" using perm by (rule mset_eq_setD)
  have bs: "\<forall>i \<in> set js. - int n \<le> i \<and> i < int n"
    using rg by (simp add: sets)
  from bcast_loop_rows [OF v d nb sx ok bs, of False]
  obtain h' where loop: "for_each (inc_bcast x ry) h js = Inr h'"
    and rows: "rows_of h' x = scatter_rows False (rows_of h x) (map ?\<alpha> js)"
    by auto
  have "rows_of h' x ! r ! c = rows_of h x ! r ! c +
          (\<Sum>i\<leftarrow>idx. if row_index n i = r then bcast_read h ry ns ! c else 0)"
    if r: "r < n" and c: "c < prod_list ns" for r c
  proof -
    have a: "\<forall>(k, v) \<in> set (map ?\<alpha> js). k < length (rows_of h x) \<and> length v = prod_list ns"
      using bs ok sx
      by (auto simp: length_rows_of row_index_less length_bcast_read)
    have b: "\<forall>q < length (rows_of h x). length (rows_of h x ! q) = prod_list ns"
      using sx by (simp add: length_rows_of rows_of_nth length_row_read)
    have "scatter_rows False (rows_of h x) (map ?\<alpha> js) ! r ! c
          = rows_of h x ! r ! c + (\<Sum>(k, v)\<leftarrow>map ?\<alpha> js. if k = r then v ! c else 0)"
      using a b r c sx by (intro scatter_rows_add_nth) (simp_all add: length_rows_of)
    also have "(\<Sum>(k, v)\<leftarrow>map ?\<alpha> js. if k = r then v ! c else 0)
          = (\<Sum>i\<leftarrow>js. if row_index n i = r then bcast_read h ry ns ! c else 0)"
      by (simp add: comp_def)
    also have "\<dots> = (\<Sum>i\<leftarrow>idx. if row_index n i = r then bcast_read h ry ns ! c else 0)"
      using perm by (rule sum_list_perm)
    finally show ?thesis using rows by simp
  qed
  then show ?thesis using loop by blast
qed

lemma scatter_rows_paired_sum:
  fixes h :: "('a::comm_monoid_add) heap"
  assumes sx: "shape x = n # ns" and ok: "bcast_ok (row_view y 0) ns"
    and bs: "\<forall>(j, i) \<in> set ps. - int n \<le> i \<and> i < int n"
    and r: "r < n" and c: "c < prod_list ns"
  shows "scatter_rows False (rows_of h x)
           (map (\<lambda>(j, i). (row_index n i, bcast_read h (row_view y j) ns)) ps) ! r ! c
         = rows_of h x ! r ! c +
           (\<Sum>(j, i)\<leftarrow>ps. if row_index n i = r then bcast_read h (row_view y j) ns ! c else 0)"
proof -
  let ?\<alpha> = "\<lambda>(j, i). (row_index n i, bcast_read h (row_view y j) ns)"
  have okj: "bcast_ok (row_view y j) ns" for j using ok bcast_ok_row [of y j ns] by simp
  have a: "\<forall>(k, v) \<in> set (map ?\<alpha> ps). k < length (rows_of h x) \<and> length v = prod_list ns"
    using bs sx
    by (auto simp: length_rows_of row_index_less length_bcast_read [OF okj])
  have b: "\<forall>q < length (rows_of h x). length (rows_of h x ! q) = prod_list ns"
    using sx by (simp add: length_rows_of rows_of_nth length_row_read)
  have "scatter_rows False (rows_of h x) (map ?\<alpha> ps) ! r ! c
        = rows_of h x ! r ! c + (\<Sum>(k, v)\<leftarrow>map ?\<alpha> ps. if k = r then v ! c else 0)"
    using a b r c sx by (intro scatter_rows_add_nth) (simp_all add: length_rows_of)
  also have "(\<Sum>(k, v)\<leftarrow>map ?\<alpha> ps. if k = r then v ! c else 0)
        = (\<Sum>(j, i)\<leftarrow>ps. if row_index n i = r then bcast_read h (row_view y j) ns ! c else 0)"
    by (simp add: comp_def case_prod_unfold cong: if_cong)
  finally show ?thesis .
qed

lemma scatter_rows_bcast_sum:
  fixes h :: "('a::comm_monoid_add) heap"
  assumes sx: "shape x = n # ns" and ok: "bcast_ok ry ns"
    and bs: "\<forall>i \<in> set js. - int n \<le> i \<and> i < int n"
    and r: "r < n" and c: "c < prod_list ns"
  shows "scatter_rows False (rows_of h x)
           (map (\<lambda>i. (row_index n i, bcast_read h ry ns)) js) ! r ! c
         = rows_of h x ! r ! c +
           (\<Sum>i\<leftarrow>js. if row_index n i = r then bcast_read h ry ns ! c else 0)"
proof -
  let ?\<alpha> = "\<lambda>i. (row_index n i, bcast_read h ry ns)"
  have a: "\<forall>(k, v) \<in> set (map ?\<alpha> js). k < length (rows_of h x) \<and> length v = prod_list ns"
    using bs ok sx
    by (auto simp: length_rows_of row_index_less length_bcast_read)
  have b: "\<forall>q < length (rows_of h x). length (rows_of h x ! q) = prod_list ns"
    using sx by (simp add: length_rows_of rows_of_nth length_row_read)
  have "scatter_rows False (rows_of h x) (map ?\<alpha> js) ! r ! c
        = rows_of h x ! r ! c + (\<Sum>(k, v)\<leftarrow>map ?\<alpha> js. if k = r then v ! c else 0)"
    using a b r c sx by (intro scatter_rows_add_nth) (simp_all add: length_rows_of)
  also have "(\<Sum>(k, v)\<leftarrow>map ?\<alpha> js. if k = r then v ! c else 0)
        = (\<Sum>i\<leftarrow>js. if row_index n i = r then bcast_read h ry ns ! c else 0)"
    by (simp add: comp_def)
  finally show ?thesis .
qed


lemma adv_perform_length_check:
  assumes sx: "shape x = n # ns" and ne: "idx \<noteq> []"
    and a: "length (shape y) = length (shape x) \<and> hd (shape y) \<noteq> 1 \<and> hd (shape y) \<noteq> length idx"
  shows "adv_perform op h x y idx
         = Inl (AssertionError, fst (if \<not> inplace op then ga_copy h x else (h, x)))"
proof -
  obtain h1 x1 where p: "(if \<not> inplace op then ga_copy h x else (h, x)) = (h1, x1)"
    by (cases "if \<not> inplace op then ga_copy h x else (h, x)")
  then have "shape x1 = shape x" by (auto simp: ga_copy_def split: if_splits)
  then have "adv_perform op h x y idx = Inl (AssertionError, h1)"
    using a ne sx by (auto simp: adv_perform_def p)
  then show ?thesis unfolding p by simp
qed

lemma adv_perform_half:
  fixes h :: "('a::plus) heap"
  assumes sx: "shape x = n # ns" and ne: "idx \<noteq> []"
    and rg: "\<forall>i \<in> set idx. - int n \<le> i \<and> i < int n"
    and acc: "\<not> set_instead_of_inc op" and half: "dtype x = Float16 \<or> dtype y = Float16"
    and lc: "\<not> (length (shape y) = length (shape x) \<and> hd (shape y) \<noteq> 1 \<and>
                hd (shape y) \<noteq> length idx)"
  shows "adv_perform op h x y idx
         = Inl (NotImplementedError, fst (if \<not> inplace op then ga_copy h x else (h, x)))"
proof -
  obtain h1 x1 where p: "(if \<not> inplace op then ga_copy h x else (h, x)) = (h1, x1)"
    by (cases "if \<not> inplace op then ga_copy h x else (h, x)")
  then have sx1: "shape x1 = n # ns" and dt: "dtype x1 = dtype x"
    using sx by (auto simp: ga_copy_def split: if_splits)
  obtain i0 where "i0 \<in> set idx" using ne by (cases idx) auto
  then have n0: "0 < n" using rg by force
  have gx: "ga_getitem x1 0 = Inr (row_view x1 0)"
    using ga_getitem_row [OF sx1, of 0] n0 by (simp add: row_index_def)
  have re: "reshaped x1 y = reshaped x y" using sx sx1 by (simp add: reshaped_def)
  show ?thesis
  proof (cases "length (shape y) = length (shape x) \<and> hd (shape y) \<noteq> 1")
    case True
    then have m: "hd (shape y) = length idx" using lc by simp
    obtain ms where sy: "shape y = length idx # ms"
      using True sx m by (cases "shape y") auto
    have gy: "ga_getitem y 0 = Inr (row_view y 0)"
      using ga_getitem_row [OF sy, of 0] ne by (simp add: row_index_def)
    have k: "getInplElemwiseAdditionKernel (row_view x1 0) (row_view y 0) = Inl NotImplementedError"
      using half dt by (auto simp: getInplElemwiseAdditionKernel_def)
    have "adv_perform op h x y idx = Inl (NotImplementedError, h1)"
      using True acc ne sx sx1 sy by (simp add: adv_perform_def p gx gy k)
    then show ?thesis unfolding p by simp
  next
    case False
    then have br1: "\<not> (length (shape y) = length (shape x1) \<and> hd (shape y) \<noteq> 1)"
      using sx sx1 by simp
    have k: "getInplElemwiseAdditionKernel (row_view x1 0) (reshaped x y) = Inl NotImplementedError"
      using half dt by (auto simp: getInplElemwiseAdditionKernel_def)
    have "adv_perform op h x y idx =
        (case ga_getitem x1 0 of
           Inl e \<Rightarrow> Inl (e, h1)
         | Inr x_0 \<Rightarrow>
             (case getInplElemwiseAdditionKernel x_0 (reshaped x y) of
                Inl e \<Rightarrow> Inl (e, h1)
              | Inr k \<Rightarrow>
                  (case for_each (inc_bcast x1 (reshaped x y)) h1 idx of
                     Inl e \<Rightarrow> Inl e | Inr h2 \<Rightarrow> Inr (h2, x1))))"
      unfolding adv_perform_def p prod.case Let_def reshaped_def [of x1 y, symmetric] re
      using ne br1 sx1 acc by auto
    then have "adv_perform op h x y idx = Inl (NotImplementedError, h1)" by (simp add: gx k)
    then show ?thesis unfolding p by simp
  qed
qed

text \<open>
  Claim C3, as amended. Take a destination with a leading axis of \<open>n\<close> rows and a
  non-empty index vector whose entries lie in \<open>[-n, n)\<close>; in place the destination is a
  valid array without overlapping elements whose buffer is not the source's. If the
  source has the rank of the destination and a leading extent other than 1, \<^verbatim>\<open>perform\<close>
  fails with the \<^verbatim>\<open>AssertionError\<close> of \<^verbatim>\<open>assert len(y) == len(idx)\<close> when the lengths
  differ. An accumulate with a half-precision operand that is not stopped by that check
  fails with \<^verbatim>\<open>NotImplementedError\<close>. In set mode, and in accumulate mode without a
  half-precision operand: a source of the destination's rank with a leading extent
  other than 1 and as many rows as there are indices has its \<open>j\<close>-th row applied to the
  row named by the \<open>j\<close>-th index (set mode overwrites, accumulate mode adds), provided a
  source row broadcasts to a destination row; in every other case the source is
  reshaped (its leading axis of extent 1 dropped when the ranks are equal, otherwise
  axes of extent 1 added in front up to the rank of a row) and that one source is
  applied to every selected row, provided it broadcasts to a destination row.
\<close>

theorem scatter_pairing:
  fixes h :: "('a::plus) heap"
  assumes wf: "inplace op \<longrightarrow> ga_valid h x \<and> distinct (ga_offsets x) \<and> buf y \<noteq> buf x"
    and yh: "buf y < length h" and sx: "shape x = n # ns"
    and ne: "idx \<noteq> []" and rg: "\<forall>i \<in> set idx. - int n \<le> i \<and> i < int n"
  shows
    "(length (shape y) = length (shape x) \<and> hd (shape y) \<noteq> 1 \<and> hd (shape y) \<noteq> length idx \<longrightarrow>
        adv_perform op h x y idx
          = Inl (AssertionError, fst (if \<not> inplace op then ga_copy h x else (h, x)))) \<and>
     (\<not> set_instead_of_inc op \<and> (dtype x = Float16 \<or> dtype y = Float16) \<and>
      \<not> (length (shape y) = length (shape x) \<and> hd (shape y) \<noteq> 1 \<and>
           hd (shape y) \<noteq> length idx) \<longrightarrow>
        adv_perform op h x y idx
          = Inl (NotImplementedError, fst (if \<not> inplace op then ga_copy h x else (h, x)))) \<and>
     ((\<not> set_instead_of_inc op \<longrightarrow> dtype x \<noteq> Float16 \<and> dtype y \<noteq> Float16) \<and>
      length (shape y) = length (shape x) \<and> hd (shape y) \<noteq> 1 \<and> hd (shape y) = length idx \<and>
      bcast_ok (row_view y 0) ns \<longrightarrow>
        (\<exists>h' out. adv_perform op h x y idx = Inr (h', out) \<and> shape out = shape x \<and>
           rows_of h' out = scatter_rows (set_instead_of_inc op) (rows_of h x)
             (map (\<lambda>(j, i). (row_index n i, bcast_read h (row_view y j) ns)) (enumerate 0 idx)))) \<and>
     ((\<not> set_instead_of_inc op \<longrightarrow> dtype x \<noteq> Float16 \<and> dtype y \<noteq> Float16) \<and>
      \<not> (length (shape y) = length (shape x) \<and> hd (shape y) \<noteq> 1) \<and>
      bcast_ok (reshaped x y) ns \<longrightarrow>
        (\<exists>h' out. adv_perform op h x y idx = Inr (h', out) \<and> shape out = shape x \<and>
           rows_of h' out = scatter_rows (set_instead_of_inc op) (rows_of h x)
             (map (\<lambda>i. (row_index n i, bcast_read h (reshaped x y) ns)) idx)))"
proof (intro conjI impI)
  assume "length (shape y) = length (shape x) \<and> hd (shape y) \<noteq> 1 \<and> hd (shape y) \<noteq> length idx"
  then show "adv_perform op h x y idx
      = Inl (AssertionError, fst (if \<not> inplace op then ga_copy h x else (h, x)))"
    by (rule adv_perform_length_check [OF sx ne])
next
  assume "\<not> set_instead_of_inc op \<and> (dtype x = Float16 \<or> dtype y = Float16) \<and>
      \<not> (length (shape y) = length (shape x) \<and> hd (shape y) \<noteq> 1 \<and>
           hd (shape y) \<noteq> length idx)"
  then show "adv_perform op h x y idx
      = Inl (NotImplementedError, fst (if \<not> inplace op then ga_copy h x else (h, x)))"
    using adv_perform_half [OF sx ne rg, of op y h] by blast
next
  assume "(\<not> set_instead_of_inc op \<longrightarrow> dtype x \<noteq> Float16 \<and> dtype y \<noteq> Float16) \<and>
      length (shape y) = length (shape x) \<and> hd (shape y) \<noteq> 1 \<and> hd (shape y) = length idx \<and>
      bcast_ok (row_view y 0) ns"
  then show "\<exists>h' out. adv_perform op h x y idx = Inr (h', out) \<and> shape out = shape x \<and>
           rows_of h' out = scatter_rows (set_instead_of_inc op) (rows_of h x)
             (map (\<lambda>(j, i). (row_index n i, bcast_read h (row_view y j) ns)) (enumerate 0 idx))"
    using adv_perform_paired [OF wf yh sx ne rg] by blast
next
  assume "(\<not> set_instead_of_inc op \<longrightarrow> dtype x \<noteq> Float16 \<and> dtype y \<noteq> Float16) \<and>
      \<not> (length (shape y) = length (shape x) \<and> hd (shape y) \<noteq> 1) \<and>
      bcast_ok (reshaped x y) ns"
  then show "\<exists>h' out. adv_perform op h x y idx = Inr (h', out) \<and> shape out = shape x \<and>
           rows_of h' out = scatter_rows (set_instead_of_inc op) (rows_of h x)
             (map (\<lambda>i. (row_index n i, bcast_read h (reshaped x y) ns)) idx)"
    using adv_perform_bcast [OF wf yh sx ne rg] by blast
qed

theorem scatter_pairing_witness:
  "inplace op_inplace \<and>
   ga_valid ex_heap ex_x \<and> distinct (ga_offsets ex_x) \<and> buf ex_y \<noteq> buf ex_x \<and>
   buf ex_y < length ex_heap \<and> shape ex_x = 3 # [2] \<and> [0, - 1] \<noteq> ([] :: int list) \<and>
   list_all (\<lambda>i. - int 3 \<le> i \<and> i < int 3) [0, - 1] \<and>
   dtype ex_x \<noteq> Float16 \<and> dtype ex_y \<noteq> Float16 \<and>
   length (shape ex_y) = length (shape ex_x) \<and> hd (shape ex_y) \<noteq> 1 \<and>
   hd (shape ex_y) = length [0, - 1 :: int] \<and> bcast_ok (row_view ex_y 0) [2] \<and>
   adv_perform op_inplace ex_heap ex_x ex_y [0, - 1]
     = Inr ([[1, 1, 0, 0, 1, 1], [1, 1, 1, 1]], ex_x) \<and>
   rows_of [[1, 1, 0, 0, 1, 1], [1, 1, 1, 1]] ex_x
     = scatter_rows False (rows_of ex_heap ex_x) [(0, [1, 1]), (2, [1, 1])] \<and>
   adv_perform op_inplace ex_heap ex_x ex_y [0] = Inl (AssertionError, ex_heap) \<and>
   adv_perform op_inplace ex_heap (ex_x\<lparr>dtype := Float16\<rparr>) ex_y [0, - 1]
     = Inl (NotImplementedError, ex_heap) \<and>
   \<not> (length (shape (ex_y\<lparr>shape := [2]\<rparr>)) = length (shape ex_x) \<and>
        hd (shape (ex_y\<lparr>shape := [2]\<rparr>)) \<noteq> 1) \<and>
   bcast_ok (reshaped ex_x (ex_y\<lparr>shape := [2]\<rparr>)) [2] \<and>
   adv_perform op_inplace ex_heap ex_x (ex_y\<lparr>shape := [2]\<rparr>) [0, - 1]
     = Inr ([[1, 1, 0, 0, 1, 1], [1, 1, 1, 1]], ex_x) \<and>
   (\<exists>h' out. adv_perform op_inplace ex_heap ex_x ex_y [0, - 1] = Inr (h', out) \<and>
      shape out = shape ex_x \<and>
      rows_of h' out = scatter_rows (set_instead_of_inc op_inplace) (rows_of ex_heap ex_x)
        (map (\<lambda>(j, i). (row_index 3 i, bcast_read ex_heap (row_view ex_y j) [2]))
           (enumerate 0 [0, - 1]))) \<and>
   (\<exists>h' out. adv_perform op_inplace ex_heap ex_x (ex_y\<lparr>shape := [2]\<rparr>) [0, - 1] = Inr (h', out) \<and>
      shape out = shape ex_x \<and>
      rows_of h' out = scatter_rows (set_instead_of_inc op_inplace) (rows_of ex_heap ex_x)
        (map (\<lambda>i. (row_index 3 i, bcast_read ex_heap (reshaped ex_x (ex_y\<lparr>shape := [2]\<rparr>)) [2]))
           [0, - 1]))"
proof -
  have wf: "inplace op_inplace \<longrightarrow>
      ga_valid ex_heap ex_x \<and> distinct (ga_offsets ex_x) \<and> buf ex_y \<noteq> buf ex_x"
    by code_simp
  have wf': "inplace op_inplace \<and>
      ga_valid ex_heap ex_x \<and> distinct (ga_offsets ex_x) \<and> buf ex_y \<noteq> buf ex_x"
    by code_simp
  have wf2: "inplace op_inplace \<longrightarrow>
      ga_valid ex_heap ex_x \<and> distinct (ga_offsets ex_x) \<and> buf (ex_y\<lparr>shape := [2]\<rparr>) \<noteq> buf ex_x"
    by code_simp
  have yh: "buf ex_y < length ex_heap" by code_simp
  have yh2: "buf (ex_y\<lparr>shape := [2]\<rparr>) < length ex_heap" by code_simp
  have sx: "shape ex_x = 3 # [2]" by code_simp
  have ne: "[0, - 1] \<noteq> ([] :: int list)" by simp
  have rg: "\<forall>i \<in> set [0, - 1]. - int 3 \<le> i \<and> i < int 3" by simp
  have rg': "list_all (\<lambda>i. - int 3 \<le> i \<and> i < int 3) [0, - 1]" by simp
  have ft': "dtype ex_x \<noteq> Float16 \<and> dtype ex_y \<noteq> Float16" by code_simp
  have ft: "\<not> set_instead_of_inc op_inplace \<longrightarrow> dtype ex_x \<noteq> Float16 \<and> dtype ex_y \<noteq> Float16"
    by code_simp
  have ft2: "\<not> set_instead_of_inc op_inplace \<longrightarrow>
      dtype ex_x \<noteq> Float16 \<and> dtype (ex_y\<lparr>shape := [2]\<rparr>) \<noteq> Float16"
    by code_simp
  have br: "length (shape ex_y) = length (shape ex_x) \<and> hd (shape ex_y) \<noteq> 1 \<and>
      hd (shape ex_y) = length [0, - 1 :: int] \<and> bcast_ok (row_view ex_y 0) [2]"
    by code_simp
  have bc: "\<not> (length (shape (ex_y\<lparr>shape := [2]\<rparr>)) = length (shape ex_x) \<and>
        hd (shape (ex_y\<lparr>shape := [2]\<rparr>)) \<noteq> 1)"
    by code_simp
  have bo: "bcast_ok (reshaped ex_x (ex_y\<lparr>shape := [2]\<rparr>)) [2]" by code_simp
  have r1: "adv_perform op_inplace ex_heap ex_x ex_y [0, - 1]
     = Inr ([[1, 1, 0, 0, 1, 1], [1, 1, 1, 1]], ex_x)" by code_simp
  have r2: "rows_of [[1, 1, 0, 0, 1, 1], [1, 1, 1, 1]] ex_x
     = scatter_rows False (rows_of ex_heap ex_x) [(0, [1, 1]), (2, [1, 1 :: int])]" by code_simp
  have r3: "adv_perform op_inplace ex_heap ex_x ex_y [0] = Inl (AssertionError, ex_heap)"
    by code_simp
  have r5: "adv_perform op_inplace ex_heap (ex_x\<lparr>dtype := Float16\<rparr>) ex_y [0, - 1]
     = Inl (NotImplementedError, ex_heap)" by code_simp
  have r6: "adv_perform op_inplace ex_heap ex_x (ex_y\<lparr>shape := [2]\<rparr>) [0, - 1]
     = Inr ([[1, 1, 0, 0, 1, 1], [1, 1, 1, 1]], ex_x)" by code_simp
  note t = scatter_pairing [OF wf yh sx ne rg]
  from t ft br have r4: "\<exists>h' out. adv_perform op_inplace ex_heap ex_x ex_y [0, - 1] = Inr (h', out) \<and>
      shape out = shape ex_x \<and>
      rows_of h' out = scatter_rows (set_instead_of_inc op_inplace) (rows_of ex_heap ex_x)
        (map (\<lambda>(j, i). (row_index 3 i, bcast_read ex_heap (row_view ex_y j) [2]))
           (enumerate 0 [0, - 1]))"
    by blast
  note t2 = scatter_pairing [OF wf2 yh2 sx ne rg]
  from t2 ft2 bc bo have r7: "\<exists>h' out.
      adv_perform op_inplace ex_heap ex_x (ex_y\<lparr>shape := [2]\<rparr>) [0, - 1] = Inr (h', out) \<and>
      shape out = shape ex_x \<and>
      rows_of h' out = scatter_rows (set_instead_of_inc op_inplace) (rows_of ex_heap ex_x)
        (map (\<lambda>i. (row_index 3 i, bcast_read ex_heap (reshaped ex_x (ex_y\<lparr>shape := [2]\<rparr>)) [2]))
           [0, - 1])"
    by blast
  show ?thesis using wf' yh sx ne rg' ft' br r1 r2 r3 r5 bc bo r6 r4 r7 by (intro conjI) blast+
qed

text \<open>
  Claim C3 as stated fails for an empty index vector: \<^verbatim>\<open>perform\<close> returns before it
  compares the lengths, so a source of the destination's rank with two rows and no
  index is accepted and the destination is returned as it is. It also fails for an
  accumulate on half-precision arrays: two indices and two source rows pass the length
  check, and \<^verbatim>\<open>perform\<close> raises \<^verbatim>\<open>NotImplementedError\<close> without pairing anything.
\<close>

theorem scatter_empty_index_counterexample:
  "length (shape ex_y) = length (shape ex_x) \<and> hd (shape ex_y) \<noteq> 1 \<and>
   hd (shape ex_y) \<noteq> length ([] :: int list) \<and>
   adv_perform op_inplace ex_heap ex_x ex_y [] = Inr (ex_heap, ex_x) \<and>
   hd (shape ex_y) = length [0, - 1 :: int] \<and>
   adv_perform op_inplace ex_heap (ex_x\<lparr>dtype := Float16\<rparr>) (ex_y\<lparr>dtype := Float16\<rparr>) [0, - 1]
     = Inl (NotImplementedError, ex_heap)"
  by code_simp

subsection \<open>Accumulating on duplicated rows\<close>

lemma scatter_rows_nth:
  fixes rows :: "('a::plus) list list"
  assumes "\<forall>(k, v) \<in> set ps. k < length rows" and "r < length rows"
  shows "scatter_rows False rows ps ! r
         = add_all (rows ! r) (map snd (filter (\<lambda>(k, v). k = r) ps))"
  using assms
proof (induction ps arbitrary: rows)
  case Nil
  then show ?case by (simp add: scatter_rows_def add_all_def)
next
  case (Cons p ps)
  obtain k v where p: "p = (k, v)" by (cases p)
  have k: "k < length rows" using Cons.prems(1) p by auto
  let ?rows = "rows[k := map2 (+) (rows ! k) v]"
  have "scatter_rows False ?rows ps ! r
        = add_all (?rows ! r) (map snd (filter (\<lambda>(k, v). k = r) ps))"
    using Cons.prems by (intro Cons.IH) auto
  moreover have "?rows ! r = (if k = r then map2 (+) (rows ! r) v else rows ! r)"
    using k Cons.prems(2) by (auto simp: nth_list_update)
  ultimately show ?case by (simp add: p scatter_rows_Cons add_all_def)
qed

lemma length_scatter_rows [simp]: "length (scatter_rows sm rows ps) = length rows"
proof (induction ps arbitrary: rows)
  case Nil
  then show ?case by (simp add: scatter_rows_def)
next
  case (Cons p ps)
  then show ?case by (cases p) (simp add: scatter_rows_Cons)
qed

lemma map2_add_swap:
  fixes a :: "('a::plus) list"
  assumes comm: "\<forall>a b :: 'a. a + b = b + a"
    and assoc: "\<forall>a b c :: 'a. a + b + c = a + (b + c)"
  shows "map2 (+) (map2 (+) a v) w = map2 (+) (map2 (+) a w) v"
proof (rule nth_equalityI)
  show "length (map2 (+) (map2 (+) a v) w) = length (map2 (+) (map2 (+) a w) v)"
    by simp
next
  fix i assume "i < length (map2 (+) (map2 (+) a v) w)"
  then have i: "i < length a" "i < length v" "i < length w" by simp_all
  have "a ! i + v ! i + w ! i = a ! i + (v ! i + w ! i)" using assoc by blast
  also have "\<dots> = a ! i + (w ! i + v ! i)" using comm by simp
  also have "\<dots> = a ! i + w ! i + v ! i" using assoc by simp
  finally show "map2 (+) (map2 (+) a v) w ! i = map2 (+) (map2 (+) a w) v ! i"
    using i by simp
qed

lemma scatter_rows_perm:
  fixes rows :: "('a::plus) list list"
  assumes comm: "\<forall>a b :: 'a. a + b = b + a"
    and assoc: "\<forall>a b c :: 'a. a + b + c = a + (b + c)"
    and perm: "mset ps = mset qs"
  shows "scatter_rows False rows ps = scatter_rows False rows qs"
proof -
  let ?f = "\<lambda>(k, v) rs. rs[k := map2 (+) (rs ! k) v]"
  have sw: "?f p (?f q rs) = ?f q (?f p rs)" for p q :: "nat \<times> 'a list" and rs
  proof -
    obtain k v where p: "p = (k, v)" by (cases p)
    obtain l w where q: "q = (l, w)" by (cases q)
    show ?thesis
    proof (cases "k = l")
      case True
      show ?thesis
      proof (cases "k < length rs")
        case True
        then show ?thesis
          using \<open>k = l\<close> map2_add_swap [OF comm assoc, of "rs ! k" w v] by (simp add: p q)
      next
        case False
        then have "rs[l := u] = rs" for u using \<open>k = l\<close> by (simp add: list_update_beyond)
        then show ?thesis using \<open>k = l\<close> by (simp add: p q)
      qed
    next
      case False
      then show ?thesis by (simp add: p q list_update_swap)
    qed
  qed
  have "fold ?f ps = fold ?f qs"
    by (rule fold_multiset_equiv) (auto simp: fun_eq_iff sw perm)
  then show ?thesis
    unfolding scatter_rows_def by (simp cong: if_cong)
qed

lemma paired_contributions:
  "map snd (filter (\<lambda>(k, v). k = r) (map (\<lambda>(j, i). (f i, g j)) ps))
   = map (\<lambda>(j, i). g j) (filter (\<lambda>(j, i). f i = r) ps)"
  by (induction ps) auto

lemma bcast_contributions:
  "map snd (filter (\<lambda>(k, v). k = r) (map (\<lambda>i. (f i, c)) js))
   = replicate (length (filter (\<lambda>i. f i = r) js)) c"
  by (induction js) auto

lemma length_filter_perm:
  assumes "mset js = mset idx"
  shows "length (filter P js) = length (filter P idx)"
proof -
  have "mset (filter P js) = mset (filter P idx)" using assms by simp
  then show ?thesis by (rule mset_eq_length)
qed

text \<open>
  Claim C2, as amended. In accumulate mode, for a destination with a leading axis of
  \<open>n\<close> rows, an index vector whose entries lie in \<open>[-n, n)\<close> and operands that are not
  half precision (in place: a valid destination without overlapping elements whose
  buffer is not the source's), duplicates in the index vector are accepted and
  \<^verbatim>\<open>perform\<close> leaves in every row its old elements with every contribution whose index
  names that row added, one after the other in the order of the index vector. Running
  the per-index additions of the call in any other order \<open>ps\<close> (any permutation of the
  pairs of \<^verbatim>\<open>enumerate(idx)\<close>, or of \<^verbatim>\<open>idx\<close> in the broadcasting branch) succeeds as
  well. It leaves the same rows when the addition of the elements is commutative and
  associative, that is exact; in the broadcasting branch, where every contribution is
  the same, it leaves the same rows for any addition.
\<close>

theorem accumulate_sums_duplicates:
  fixes h :: "('a::plus) heap"
  assumes wf: "inplace op \<longrightarrow> ga_valid h x \<and> distinct (ga_offsets x) \<and> buf y \<noteq> buf x"
    and yh: "buf y < length h" and sx: "shape x = n # ns"
    and rg: "\<forall>i \<in> set idx. - int n \<le> i \<and> i < int n"
    and acc: "\<not> set_instead_of_inc op" and ft: "dtype x \<noteq> Float16 \<and> dtype y \<noteq> Float16"
    and prep: "(if \<not> inplace op then ga_copy h x else (h, x)) = (h1, x1)"
  shows
    "(length (shape y) = length (shape x) \<and> hd (shape y) \<noteq> 1 \<and> hd (shape y) = length idx \<and>
      bcast_ok (row_view y 0) ns \<longrightarrow>
        (\<exists>h'. adv_perform op h x y idx = Inr (h', x1) \<and>
           (\<forall>r < n. rows_of h' x1 ! r =
              add_all (rows_of h x ! r)
                (map (\<lambda>(j, i). bcast_read h (row_view y j) ns)
                   (filter (\<lambda>(j, i). row_index n i = r) (enumerate 0 idx)))) \<and>
           (mset ps = mset (enumerate 0 idx) \<longrightarrow>
              (\<exists>h''. for_each (inc_paired x1 y) h1 ps = Inr h'' \<and>
                 ((\<forall>a b :: 'a. a + b = b + a) \<and> (\<forall>a b c :: 'a. a + b + c = a + (b + c)) \<longrightarrow>
                    rows_of h'' x1 = rows_of h' x1))))) \<and>
     (\<not> (length (shape y) = length (shape x) \<and> hd (shape y) \<noteq> 1) \<and>
      bcast_ok (reshaped x y) ns \<longrightarrow>
        (\<exists>h'. adv_perform op h x y idx = Inr (h', x1) \<and>
           (\<forall>r < n. rows_of h' x1 ! r =
              add_all (rows_of h x ! r)
                (replicate (length (filter (\<lambda>i. row_index n i = r) idx))
                   (bcast_read h (reshaped x y) ns))) \<and>
           (mset js = mset idx \<longrightarrow>
              (\<exists>h''. for_each (inc_bcast x1 (reshaped x y)) h1 js = Inr h'' \<and>
                 rows_of h'' x1 = rows_of h' x1))))"
proof -
  from adv_prepare [OF wf yh sx] prep have
    v1: "ga_valid h1 x1" and d1: "distinct (ga_offsets x1)" and nb: "buf y \<noteq> buf x1"
    and sx1: "shape x1 = n # ns"
    and rows1: "rows_of h1 x1 = rows_of h x" and hy: "h1 ! buf y = h ! buf y"
    by (metis prod.inject)+
  have ft': "\<not> set_instead_of_inc op \<longrightarrow> dtype x \<noteq> Float16 \<and> dtype y \<noteq> Float16"
    using ft by simp
  have out: "out = x1" if "adv_perform op h x y idx = Inr (h', out)" for h' out
    using adv_perform_frame [OF that] prep by simp
  have len: "length (rows_of h x) = n" using sx by (simp add: length_rows_of)
  let ?\<alpha> = "\<lambda>(j, i). (row_index n i, bcast_read h (row_view y j) ns)"
  let ?\<beta> = "\<lambda>i. (row_index n i, bcast_read h (reshaped x y) ns)"
  have paired: "\<exists>h'. adv_perform op h x y idx = Inr (h', x1) \<and>
           (\<forall>r < n. rows_of h' x1 ! r =
              add_all (rows_of h x ! r)
                (map (\<lambda>(j, i). bcast_read h (row_view y j) ns)
                   (filter (\<lambda>(j, i). row_index n i = r) (enumerate 0 idx)))) \<and>
           (mset ps = mset (enumerate 0 idx) \<longrightarrow>
              (\<exists>h''. for_each (inc_paired x1 y) h1 ps = Inr h'' \<and>
                 ((\<forall>a b :: 'a. a + b = b + a) \<and> (\<forall>a b c :: 'a. a + b + c = a + (b + c)) \<longrightarrow>
                    rows_of h'' x1 = rows_of h' x1)))"
    if rk: "length (shape y) = length (shape x)" and h1: "hd (shape y) \<noteq> 1"
      and m: "hd (shape y) = length idx" and ok: "bcast_ok (row_view y 0) ns"
      and ne: "idx \<noteq> []"
  proof -
    obtain ms where sy: "shape y = length idx # ms"
      using rk sx m by (cases "shape y") auto
    from adv_perform_paired [OF wf yh sx ne rg ft' rk h1 m ok] acc
    obtain h' out where run: "adv_perform op h x y idx = Inr (h', out)"
      and rows: "rows_of h' out = scatter_rows False (rows_of h x) (map ?\<alpha> (enumerate 0 idx))"
      by auto
    have o: "out = x1" using run by (rule out)
    have inr: "\<forall>(k, v) \<in> set (map ?\<alpha> (enumerate 0 idx)). k < length (rows_of h x)"
      using rg by (auto simp: len in_set_enumerate_eq row_index_less)
    have f1: "rows_of h' x1 ! r =
              add_all (rows_of h x ! r)
                (map (\<lambda>(j, i). bcast_read h (row_view y j) ns)
                   (filter (\<lambda>(j, i). row_index n i = r) (enumerate 0 idx)))"
      if "r < n" for r
      using scatter_rows_nth [OF inr, of r] that rows o
      by (simp add: len paired_contributions)
    have f2: "\<exists>h''. for_each (inc_paired x1 y) h1 ps = Inr h'' \<and>
                 ((\<forall>a b :: 'a. a + b = b + a) \<and> (\<forall>a b c :: 'a. a + b + c = a + (b + c)) \<longrightarrow>
                    rows_of h'' x1 = rows_of h' x1)"
      if perm: "mset ps = mset (enumerate 0 idx)"
    proof -
      have sets: "set ps = set (enumerate 0 idx)" using perm by (rule mset_eq_setD)
      have bs: "\<forall>(j, i) \<in> set ps. j < length idx \<and> - int n \<le> i \<and> i < int n"
        using rg by (auto simp: sets in_set_enumerate_eq)
      have src: "(\<lambda>(j, i). (row_index n i, bcast_read h1 (row_view y j) ns)) = ?\<alpha>"
        using hy by (auto simp: fun_eq_iff intro!: bcast_read_cong)
      from paired_loop_rows [OF v1 d1 nb sx1 sy ok bs, of False]
      obtain h'' where loop: "for_each (inc_paired x1 y) h1 ps = Inr h''"
        and rows'': "rows_of h'' x1 = scatter_rows False (rows_of h x) (map ?\<alpha> ps)"
        by (auto simp: src rows1)
      have "rows_of h'' x1 = rows_of h' x1"
        if "(\<forall>a b :: 'a. a + b = b + a) \<and> (\<forall>a b c :: 'a. a + b + c = a + (b + c))"
      proof -
        have "mset (map ?\<alpha> ps) = mset (map ?\<alpha> (enumerate 0 idx))" using perm by simp
        with that have "scatter_rows False (rows_of h x) (map ?\<alpha> ps)
            = scatter_rows False (rows_of h x) (map ?\<alpha> (enumerate 0 idx))"
          by (intro scatter_rows_perm) blast+
        then show ?thesis using rows rows'' o by simp
      qed
      then show ?thesis using loop by blast
    qed
    show ?thesis using run o f1 f2 by blast
  qed
  have bcast: "\<exists>h'. adv_perform op h x y idx = Inr (h', x1) \<and>
           (\<forall>r < n. rows_of h' x1 ! r =
              add_all (rows_of h x ! r)
                (replicate (length (filter (\<lambda>i. row_index n i = r) idx))
                   (bcast_read h (reshaped x y) ns))) \<and>
           (mset js = mset idx \<longrightarrow>
              (\<exists>h''. for_each (inc_bcast x1 (reshaped x y)) h1 js = Inr h'' \<and>
                 rows_of h'' x1 = rows_of h' x1))"
    if br: "\<not> (length (shape y) = length (shape x) \<and> hd (shape y) \<noteq> 1)"
      and ok: "bcast_ok (reshaped x y) ns" and ne: "idx \<noteq> []"
  proof -
    from adv_perform_bcast [OF wf yh sx ne rg ft' br ok] acc
    obtain h' out where run: "adv_perform op h x y idx = Inr (h', out)"
      and rows: "rows_of h' out = scatter_rows False (rows_of h x) (map ?\<beta> idx)"
      by auto
    have o: "out = x1" using run by (rule out)
    have inr: "\<forall>(k, v) \<in> set (map ?\<beta> js). k < length (rows_of h x)"
      if "set js = set idx" for js
      using rg that by (auto simp: len row_index_less)
    have f1: "rows_of h' x1 ! r =
              add_all (rows_of h x ! r)
                (replicate (length (filter (\<lambda>i. row_index n i = r) idx))
                   (bcast_read h (reshaped x y) ns))"
      if "r < n" for r
      using scatter_rows_nth [OF inr [OF refl], of r] that rows o
      by (simp add: len bcast_contributions)
    have f2: "\<exists>h''. for_each (inc_bcast x1 (reshaped x y)) h1 js = Inr h'' \<and>
                 rows_of h'' x1 = rows_of h' x1"
      if perm: "mset js = mset idx"
    proof -
      have sets: "set js = set idx" using perm by (rule mset_eq_setD)
      have bs: "\<forall>i \<in> set js. - int n \<le> i \<and> i < int n" using rg by (simp add: sets)
      have src: "bcast_read h1 (reshaped x y) ns = bcast_read h (reshaped x y) ns"
        using hy by (intro bcast_read_cong) simp
      have nb': "buf (reshaped x y) \<noteq> buf x1" using nb by simp
      from bcast_loop_rows [OF v1 d1 nb' sx1 ok bs, of False]
      obtain h'' where loop: "for_each (inc_bcast x1 (reshaped x y)) h1 js = Inr h''"
        and rows'': "rows_of h'' x1 = scatter_rows False (rows_of h x) (map ?\<beta> js)"
        by (auto simp: src rows1)
      have "rows_of h'' x1 = rows_of h' x1"
      proof (rule nth_equalityI)
        show "length (rows_of h'' x1) = length (rows_of h' x1)"
          using sx1 by (simp add: length_rows_of)
      next
        fix r assume "r < length (rows_of h'' x1)"
        then have r: "r < n" using sx1 by (simp add: length_rows_of)
        have "rows_of h'' x1 ! r = add_all (rows_of h x ! r)
                (replicate (length (filter (\<lambda>i. row_index n i = r) js))
                   (bcast_read h (reshaped x y) ns))"
          using scatter_rows_nth [OF inr [OF sets], of r] r rows''
          by (simp add: len bcast_contributions)
        also have "\<dots> = rows_of h' x1 ! r"
          using f1 [OF r] length_filter_perm [OF perm] by simp
        finally show "rows_of h'' x1 ! r = rows_of h' x1 ! r" .
      qed
      then show ?thesis using loop by blast
    qed
    show ?thesis using run o f1 f2 by blast
  qed
  show ?thesis
  proof (cases "idx = []")
    case True
    have run: "adv_perform op h x y idx = Inr (h1, x1)"
      using True prep by (simp add: adv_perform_def)
    have "for_each (inc_paired x1 y) h1 ps = Inr h1" if "mset ps = mset (enumerate 0 idx)"
      using that True by simp
    moreover have "for_each (inc_bcast x1 (reshaped x y)) h1 js = Inr h1" if "mset js = mset idx"
      using that True by simp
    ultimately show ?thesis using run rows1 True by (simp add: add_all_def)
  next
    case False
    with paired bcast show ?thesis by blast
  qed
qed

theorem accumulate_sums_duplicates_witness:
  "inplace op_inplace \<and>
   ga_valid ex_heap ex_x \<and> distinct (ga_offsets ex_x) \<and> buf ex_y \<noteq> buf ex_x \<and>
   buf ex_y < length ex_heap \<and> shape ex_x = 3 # [2] \<and>
   list_all (\<lambda>i. - int 3 \<le> i \<and> i < int 3) [0, 0] \<and>
   \<not> set_instead_of_inc op_inplace \<and> (dtype ex_x \<noteq> Float16 \<and> dtype ex_y \<noteq> Float16) \<and>
   (if \<not> inplace op_inplace then ga_copy ex_heap ex_x else (ex_heap, ex_x)) = (ex_heap, ex_x) \<and>
   length (shape ex_y) = length (shape ex_x) \<and> hd (shape ex_y) \<noteq> 1 \<and>
   hd (shape ex_y) = length [0, 0 :: int] \<and> bcast_ok (row_view ex_y 0) [2] \<and>
   mset [(1, 0), (0, 0)] = mset (enumerate 0 [0, 0 :: int]) \<and>
   (\<forall>a b :: int. a + b = b + a) \<and> (\<forall>a b c :: int. a + b + c = a + (b + c)) \<and>
   adv_perform op_inplace ex_heap ex_x ex_y [0, 0]
     = Inr ([[2, 2, 0, 0, 0, 0], [1, 1, 1, 1]], ex_x) \<and>
   rows_of [[2, 2, 0, 0, 0, 0], [1, 1, 1, 1 :: int]] ex_x = [[2, 2], [0, 0], [0, 0]] \<and>
   for_each (inc_paired ex_x ex_y) ex_heap [(1, 0), (0, 0)]
     = Inr [[2, 2, 0, 0, 0, 0], [1, 1, 1, 1]] \<and>
   (\<exists>h'. adv_perform op_inplace ex_heap ex_x ex_y [0, 0] = Inr (h', ex_x) \<and>
      (\<forall>r < 3. rows_of h' ex_x ! r =
         add_all (rows_of ex_heap ex_x ! r)
           (map (\<lambda>(j, i). bcast_read ex_heap (row_view ex_y j) [2])
              (filter (\<lambda>(j, i). row_index 3 i = r) (enumerate 0 [0, 0])))) \<and>
      (\<exists>h''. for_each (inc_paired ex_x ex_y) ex_heap [(1, 0), (0, 0)] = Inr h'' \<and>
         rows_of h'' ex_x = rows_of h' ex_x)) \<and>
   ga_valid s_heap s_x \<and> distinct (ga_offsets s_x) \<and> buf s_y \<noteq> buf s_x \<and>
   buf s_y < length s_heap \<and> shape s_x = 3 # [2] \<and>
   (dtype s_x \<noteq> Float16 \<and> dtype s_y \<noteq> Float16) \<and>
   (if \<not> inplace op_inplace then ga_copy s_heap s_x else (s_heap, s_x)) = (s_heap, s_x) \<and>
   length (shape s_y) = length (shape s_x) \<and> hd (shape s_y) \<noteq> 1 \<and>
   hd (shape s_y) = length [0, 0 :: int] \<and> bcast_ok (row_view s_y 0) [2] \<and>
   adv_perform op_inplace s_heap s_x s_y [0, 0]
     = Inr ([[F32 2, F32 2, F32 0, F32 0, F32 0, F32 0], [F32 1, F32 1, F32 1, F32 1]], s_x) \<and>
   (\<exists>h'. adv_perform op_inplace s_heap s_x s_y [0, 0] = Inr (h', s_x) \<and>
      (\<forall>r < 3. rows_of h' s_x ! r =
         add_all (rows_of s_heap s_x ! r)
           (map (\<lambda>(j, i). bcast_read s_heap (row_view s_y j) [2])
              (filter (\<lambda>(j, i). row_index 3 i = r) (enumerate 0 [0, 0])))))"
proof -
  have swf: "inplace op_inplace \<longrightarrow>
      ga_valid s_heap s_x \<and> distinct (ga_offsets s_x) \<and> buf s_y \<noteq> buf s_x"
    by code_simp
  have swf': "ga_valid s_heap s_x \<and> distinct (ga_offsets s_x) \<and> buf s_y \<noteq> buf s_x"
    by code_simp
  have syh: "buf s_y < length s_heap" by code_simp
  have ssx: "shape s_x = 3 # [2]" by code_simp
  have sft: "dtype s_x \<noteq> Float16 \<and> dtype s_y \<noteq> Float16" by code_simp
  have sprep: "(if \<not> inplace op_inplace then ga_copy s_heap s_x else (s_heap, s_x))
      = (s_heap, s_x)" by code_simp
  have sbr: "length (shape s_y) = length (shape s_x) \<and> hd (shape s_y) \<noteq> 1 \<and>
      hd (shape s_y) = length [0, 0 :: int] \<and> bcast_ok (row_view s_y 0) [2]"
    by code_simp
  have s1: "adv_perform op_inplace s_heap s_x s_y [0, 0]
     = Inr ([[F32 2, F32 2, F32 0, F32 0, F32 0, F32 0], [F32 1, F32 1, F32 1, F32 1]], s_x)"
    by code_simp
  have wf: "inplace op_inplace \<longrightarrow>
      ga_valid ex_heap ex_x \<and> distinct (ga_offsets ex_x) \<and> buf ex_y \<noteq> buf ex_x"
    by code_simp
  have wf': "inplace op_inplace \<and>
      ga_valid ex_heap ex_x \<and> distinct (ga_offsets ex_x) \<and> buf ex_y \<noteq> buf ex_x"
    by code_simp
  have yh: "buf ex_y < length ex_heap" by code_simp
  have sx: "shape ex_x = 3 # [2]" by code_simp
  have rg: "\<forall>i \<in> set [0, 0]. - int 3 \<le> i \<and> i < int 3" by simp
  have rg': "list_all (\<lambda>i. - int 3 \<le> i \<and> i < int 3) [0, 0]" by simp
  have acc: "\<not> set_instead_of_inc op_inplace" by code_simp
  have ft: "dtype ex_x \<noteq> Float16 \<and> dtype ex_y \<noteq> Float16" by code_simp
  have prep: "(if \<not> inplace op_inplace then ga_copy ex_heap ex_x else (ex_heap, ex_x))
      = (ex_heap, ex_x)" by code_simp
  have br: "length (shape ex_y) = length (shape ex_x) \<and> hd (shape ex_y) \<noteq> 1 \<and>
      hd (shape ex_y) = length [0, 0 :: int] \<and> bcast_ok (row_view ex_y 0) [2]"
    by code_simp
  have pm: "mset [(1, 0), (0, 0)] = mset (enumerate 0 [0, 0 :: int])"
    by (simp add: enumerate_eq_zip)
  have ex: "(\<forall>a b :: int. a + b = b + a) \<and> (\<forall>a b c :: int. a + b + c = a + (b + c))"
    by simp
  have r1: "adv_perform op_inplace ex_heap ex_x ex_y [0, 0]
     = Inr ([[2, 2, 0, 0, 0, 0], [1, 1, 1, 1]], ex_x)" by code_simp
  have r2: "rows_of [[2, 2, 0, 0, 0, 0], [1, 1, 1, 1 :: int]] ex_x = [[2, 2], [0, 0], [0, 0]]"
    by code_simp
  have r3: "for_each (inc_paired ex_x ex_y) ex_heap [(1, 0), (0, 0)]
     = Inr [[2, 2, 0, 0, 0, 0], [1, 1, 1, 1]]" by code_simp
  note t = accumulate_sums_duplicates [OF wf yh sx rg acc ft prep,
      where ps = "[(1, 0), (0, 0)]" and js = "[]"]
  from t br pm ex have r4: "\<exists>h'. adv_perform op_inplace ex_heap ex_x ex_y [0, 0] = Inr (h', ex_x) \<and>
      (\<forall>r < 3. rows_of h' ex_x ! r =
         add_all (rows_of ex_heap ex_x ! r)
           (map (\<lambda>(j, i). bcast_read ex_heap (row_view ex_y j) [2])
              (filter (\<lambda>(j, i). row_index 3 i = r) (enumerate 0 [0, 0])))) \<and>
      (\<exists>h''. for_each (inc_paired ex_x ex_y) ex_heap [(1, 0), (0, 0)] = Inr h'' \<and>
         rows_of h'' ex_x = rows_of h' ex_x)"
    by blast
  note u = accumulate_sums_duplicates [OF swf syh ssx rg acc sft sprep,
      where ps = "[]" and js = "[]"]
  from u sbr have s2: "\<exists>h'. adv_perform op_inplace s_heap s_x s_y [0, 0] = Inr (h', s_x) \<and>
      (\<forall>r < 3. rows_of h' s_x ! r =
         add_all (rows_of s_heap s_x ! r)
           (map (\<lambda>(j, i). bcast_read s_heap (row_view s_y j) [2])
              (filter (\<lambda>(j, i). row_index 3 i = r) (enumerate 0 [0, 0]))))"
    by blast
  show ?thesis
    using wf' yh sx rg' acc ft prep br pm ex r1 r2 r3 r4 swf' syh ssx sft sprep sbr s1 s2
    by (intro conjI) blast+
qed

text \<open>
  Claim C2 as stated fails. With single-precision elements the result depends on the
  order of the per-index additions: on a destination element \<open>2^24\<close>, the index vector
  \<open>[0, 0]\<close> and the contributions \<open>1\<close> and \<open>-2^24\<close>, \<^verbatim>\<open>perform\<close> leaves \<open>0\<close> (the sum
  \<open>2^24 + 1\<close> rounds to \<open>2^24\<close>), while the same two additions in the other order leave
  \<open>1\<close>. And an accumulate on half-precision arrays with a duplicated index sums
  nothing: \<^verbatim>\<open>perform\<close> raises \<^verbatim>\<open>NotImplementedError\<close>.
\<close>

theorem accumulate_order_counterexample:
  "adv_perform op_inplace r_heap r_x r_y [0, 0]
     = Inr ([[F32 0], [F32 1, F32 (- 16777216)]], r_x) \<and>
   for_each (inc_paired r_x r_y) r_heap [(1, 0), (0, 0)]
     = Inr [[F32 1], [F32 1, F32 (- 16777216)]] \<and>
   adv_perform op_inplace ex_heap (ex_x\<lparr>dtype := Float16\<rparr>) (ex_y\<lparr>dtype := Float16\<rparr>) [0, 0]
     = Inl (NotImplementedError, ex_heap)"
  by code_simp


subsection \<open>The effect of \<^verbatim>\<open>inplace\<close> on the store\<close>

lemma for_each_frame_raise:
  assumes "\<And>s b s'. body s b = Inr s' \<Longrightarrow> frame k s s'"
  shows "for_each body h bs = Inl (e, h') \<Longrightarrow> frame k h h'"
proof (induction bs arbitrary: h)
  case Nil
  then show ?case by simp
next
  case (Cons b bs)
  show ?case
  proof (cases "body h b")
    case (Inl e')
    then show ?thesis using Cons.prems by (simp add: frame_refl)
  next
    case (Inr h1)
    then have "for_each body h1 bs = Inl (e, h')" using Cons.prems by simp
    from assms [OF Inr] Cons.IH [OF this] show ?thesis by (rule frame_trans)
  qed
qed

lemma loop_frames_raise:
  "for_each (set_paired x y) h bs = Inl (e, h') \<Longrightarrow> frame (buf x) h h'"
  "for_each (inc_paired x y) h bs2 = Inl (e, h') \<Longrightarrow> frame (buf x) h h'"
  "for_each (set_bcast x r) h bs3 = Inl (e, h') \<Longrightarrow> frame (buf x) h h'"
  "for_each (inc_bcast x r) h bs3 = Inl (e, h') \<Longrightarrow> frame (buf x) h h'"
  by (erule for_each_frame_raise [rotated],
      erule set_paired_frame inc_paired_frame set_bcast_frame inc_bcast_frame)+

lemma adv_perform_frame_raise:
  assumes "adv_perform op h x0 y idx = Inl (e, h')"
  shows "frame (buf (snd (if \<not> inplace op then ga_copy h x0 else (h, x0))))
           (fst (if \<not> inplace op then ga_copy h x0 else (h, x0))) h'"
proof -
  obtain h1 x where c: "(if \<not> inplace op then ga_copy h x0 else (h, x0)) = (h1, x)"
    by (cases "if \<not> inplace op then ga_copy h x0 else (h, x0)")
  have "frame (buf x) h1 h'"
    using assms unfolding adv_perform_def c
    by (auto simp: Let_def frame_refl split: if_splits sum.splits intro: loop_frames_raise)
  then show ?thesis unfolding c by simp
qed

lemma inc_perform_frame_raise:
  assumes "inc_perform op idx_list h x0 y inputs = Inl (e, h')"
  shows "h' = h \<or>
         frame (buf (snd (if \<not> inplace op then ga_copy h x0 else (h, x0))))
           (fst (if \<not> inplace op then ga_copy h x0 else (h, x0))) h'"
proof -
  obtain h1 x where c: "(if \<not> inplace op then ga_copy h x0 else (h, x0)) = (h1, x)"
    by (cases "if \<not> inplace op then ga_copy h x0 else (h, x0)")
  have "h' = h \<or> frame (buf x) h1 h'"
    using assms unfolding inc_perform_def c
    by (auto simp: frame_refl split: if_splits sum.splits intro: elemwise2_add_frame)
  then show ?thesis unfolding c by simp
qed

lemma frame_prefix_read:
  assumes "take (length h) h' = h" "buf x < length h"
  shows "ga_read h' x = ga_read h x"
proof -
  have "h' ! buf x = h ! buf x" using assms by (metis nth_take)
  then show ?thesis by (simp add: ga_read_def)
qed

lemma for_each_all:
  assumes "\<And>s b s'. body s b = Inr s' \<Longrightarrow> P b"
  shows "for_each body h bs = Inr h' \<Longrightarrow> \<forall>b \<in> set bs. P b"
proof (induction bs arbitrary: h)
  case Nil
  then show ?case by simp
next
  case (Cons b bs)
  then obtain h1 where b: "body h b = Inr h1" and r: "for_each body h1 bs = Inr h'"
    by (auto split: sum.splits)
  from assms [OF b] Cons.IH [OF r] show ?case by simp
qed

lemma elemwise_iadd_returns:
  "elemwise_iadd bc h a b = Inr h' \<Longrightarrow>
   bcast_ok b (shape a) \<and>
   h' = ga_write h a (map2 (+) (ga_read h a) (bcast_read h b (shape a)))"
  by (auto simp: elemwise_iadd_def bcast_ok_def broadcast_view_def bcast_read_def
           split: if_splits option.splits)

lemma ga_setarray_returns:
  "ga_setarray h a v = Inr h' \<Longrightarrow>
   length (shape v) \<le> length (shape a) \<and>
   bcast_ok (pad_unit_axes (length (shape a) - length (shape v)) v) (shape a) \<and>
   h' = ga_write h a
          (bcast_read h (pad_unit_axes (length (shape a) - length (shape v)) v) (shape a))"
  by (auto simp: ga_setarray_def bcast_ok_def broadcast_view_def bcast_read_def
           split: if_splits option.splits)

lemma ga_getitem_returns:
  assumes "ga_getitem a i = Inr b" "shape a = n # ns"
  shows "- int n \<le> i \<and> i < int n \<and> b = row_view a (row_index n i)"
  using assms
  by (auto simp: ga_getitem_def row_view_def row_index_def Let_def split: if_splits)

lemma inc_paired_returns:
  assumes "inc_paired x y s (j, i) = Inr s'" "shape x = n # ns"
  shows "- int n \<le> i \<and> i < int n \<and> bcast_ok (row_view y 0) ns"
proof -
  from assms(1) obtain xi yj where gx: "ga_getitem x i = Inr xi"
    and gy: "ga_getitem y (int j) = Inr yj" and w: "elemwise_iadd True s xi yj = Inr s'"
    by (auto simp: inc_paired_def split: sum.splits)
  from ga_getitem_returns [OF gx assms(2)]
  have r: "- int n \<le> i \<and> i < int n" and xi: "xi = row_view x (row_index n i)" by simp_all
  obtain m ms where sy: "shape y = m # ms"
    using gy by (cases "shape y") (auto simp: ga_getitem_def)
  from ga_getitem_returns [OF gy sy] have yj: "yj = row_view y j" by simp
  from elemwise_iadd_returns [OF w] have "bcast_ok (row_view y j) ns"
    using xi yj assms(2) by simp
  then show ?thesis using r bcast_ok_row [of y j ns] by simp
qed

lemma set_paired_returns:
  assumes "set_paired x y s (j, i) = Inr s'" "shape x = n # ns"
    and "length (shape y) = length (shape x)"
  shows "- int n \<le> i \<and> i < int n \<and> bcast_ok (row_view y 0) ns"
proof -
  from assms(1) obtain xi yj where gx: "ga_getitem x i = Inr xi"
    and gy: "ga_getitem y (int j) = Inr yj" and w: "ga_setarray s xi yj = Inr s'"
    by (auto simp: set_paired_def ga_setitem_def split: sum.splits)
  from ga_getitem_returns [OF gx assms(2)]
  have r: "- int n \<le> i \<and> i < int n" and xi: "xi = row_view x (row_index n i)" by simp_all
  obtain m ms where sy: "shape y = m # ms"
    using gy by (cases "shape y") (auto simp: ga_getitem_def)
  from ga_getitem_returns [OF gy sy] have yj: "yj = row_view y j" by simp
  have "length (shape yj) = length (shape xi)" using xi yj sy assms(2,3) by simp
  with ga_setarray_returns [OF w] have "bcast_ok (row_view y j) ns"
    using xi yj assms(2) by simp
  then show ?thesis using r bcast_ok_row [of y j ns] by simp
qed

lemma inc_bcast_returns:
  assumes "inc_bcast x ry s i = Inr s'" "shape x = n # ns"
  shows "- int n \<le> i \<and> i < int n \<and> bcast_ok ry ns"
proof -
  from assms(1) obtain xi where gx: "ga_getitem x i = Inr xi"
    and w: "elemwise_iadd True s xi ry = Inr s'"
    by (auto simp: inc_bcast_def split: sum.splits)
  from ga_getitem_returns [OF gx assms(2)]
  have r: "- int n \<le> i \<and> i < int n" and xi: "xi = row_view x (row_index n i)" by simp_all
  from elemwise_iadd_returns [OF w] show ?thesis using r xi assms(2) by simp
qed

lemma set_bcast_returns:
  assumes "set_bcast x ry s i = Inr s'" "shape x = n # ns"
    and "length ns \<le> length (shape ry)"
  shows "- int n \<le> i \<and> i < int n \<and> bcast_ok ry ns"
proof -
  from assms(1) obtain xi where gx: "ga_getitem x i = Inr xi"
    and w: "ga_setarray s xi ry = Inr s'"
    by (auto simp: set_bcast_def ga_setitem_def split: sum.splits)
  from ga_getitem_returns [OF gx assms(2)]
  have r: "- int n \<le> i \<and> i < int n" and xi: "xi = row_view x (row_index n i)" by simp_all
  have sh: "shape xi = ns" using xi assms(2) by simp
  from ga_setarray_returns [OF w] have "length (shape ry) = length ns"
    using sh assms(3) by simp
  with ga_setarray_returns [OF w] show ?thesis using r sh by simp
qed

lemma reshaped_rank:
  assumes "shape x = n # ns"
  shows "length ns \<le> length (shape (reshaped x y))"
  using assms
  by (auto simp: reshaped_def drop_leading_axis_def pad_unit_axes_def)

lemma adv_perform_inplace_loop:
  fixes h :: "('a::plus) heap"
  assumes i: "inplace op" and ne: "idx \<noteq> []"
    and run: "adv_perform op h x y idx = Inr (h', out)"
  shows "(length (shape y) = length (shape x) \<and> hd (shape y) \<noteq> 1 \<and>
          hd (shape y) = length idx \<and>
          for_each (if set_instead_of_inc op then set_paired x y else inc_paired x y) h
            (enumerate 0 idx) = Inr h') \<or>
         (\<not> (length (shape y) = length (shape x) \<and> hd (shape y) \<noteq> 1) \<and>
          for_each (if set_instead_of_inc op then set_bcast x (reshaped x y)
                    else inc_bcast x (reshaped x y)) h idx = Inr h')"
proof -
  have p: "(if \<not> inplace op then ga_copy h x else (h, x)) = (h, x)" using i by simp
  show ?thesis
    using run ne unfolding adv_perform_def p prod.case Let_def reshaped_def [of x y, symmetric]
    by (auto split: if_splits sum.splits)
qed

lemma adv_perform_inplace_rows:
  fixes h :: "('a::plus) heap"
  assumes i: "inplace op" and v: "ga_valid h x" and d: "distinct (ga_offsets x)"
    and nb: "buf y \<noteq> buf x" and sx: "shape x = n # ns"
    and run: "adv_perform op h x y idx = Inr (h', out)"
  shows "rows_of h' x
         = scatter_rows (set_instead_of_inc op) (rows_of h x) (contributions h x y idx)"
proof (cases "idx = []")
  case True
  then have "h' = h" using run i by (simp add: adv_perform_def)
  then show ?thesis using True by (simp add: contributions_def scatter_rows_def)
next
  case False
  from adv_perform_inplace_loop [OF i False run]
  show ?thesis
  proof
    assume a: "length (shape y) = length (shape x) \<and> hd (shape y) \<noteq> 1 \<and>
          hd (shape y) = length idx \<and>
          for_each (if set_instead_of_inc op then set_paired x y else inc_paired x y) h
            (enumerate 0 idx) = Inr h'"
    then have rk: "length (shape y) = length (shape x)" and m: "hd (shape y) = length idx"
      and loop: "for_each (if set_instead_of_inc op then set_paired x y else inc_paired x y) h
            (enumerate 0 idx) = Inr h'" by simp_all
    obtain ms where sy: "shape y = length idx # ms"
      using rk sx m by (cases "shape y") auto
    have all: "\<forall>b \<in> set (enumerate 0 idx).
            - int n \<le> snd b \<and> snd b < int n \<and> bcast_ok (row_view y 0) ns"
    proof (rule for_each_all [OF _ loop])
      fix s s' :: "'a heap" and b :: "nat \<times> int"
      assume "(if set_instead_of_inc op then set_paired x y else inc_paired x y) s b = Inr s'"
      then show "- int n \<le> snd b \<and> snd b < int n \<and> bcast_ok (row_view y 0) ns"
        using set_paired_returns [of x y s "fst b" "snd b" s' n ns]
          inc_paired_returns [of x y s "fst b" "snd b" s' n ns] sx rk
        by (auto split: if_splits)
    qed
    have mem: "(0, idx ! 0) \<in> set (enumerate 0 idx)"
      using False by (simp add: in_set_enumerate_eq)
    from all mem have ok: "bcast_ok (row_view y 0) ns" by blast
    have bs: "\<forall>(j, i) \<in> set (enumerate 0 idx). j < length idx \<and> - int n \<le> i \<and> i < int n"
      using all by (auto simp: in_set_enumerate_eq)
    from paired_loop_rows [OF v d nb sx sy ok bs, of "set_instead_of_inc op"] loop
    have "rows_of h' x = scatter_rows (set_instead_of_inc op) (rows_of h x)
             (map (\<lambda>(j, i). (row_index n i, bcast_read h (row_view y j) ns)) (enumerate 0 idx))"
      by auto
    then show ?thesis using a sx by (auto simp: contributions_def)
  next
    assume a: "\<not> (length (shape y) = length (shape x) \<and> hd (shape y) \<noteq> 1) \<and>
          for_each (if set_instead_of_inc op then set_bcast x (reshaped x y)
                    else inc_bcast x (reshaped x y)) h idx = Inr h'"
    then have loop: "for_each (if set_instead_of_inc op then set_bcast x (reshaped x y)
                    else inc_bcast x (reshaped x y)) h idx = Inr h'" by simp
    have "\<forall>b \<in> set idx. - int n \<le> b \<and> b < int n \<and> bcast_ok (reshaped x y) ns"
    proof (rule for_each_all [OF _ loop])
      fix s s' :: "'a heap" and b :: int
      assume "(if set_instead_of_inc op then set_bcast x (reshaped x y)
               else inc_bcast x (reshaped x y)) s b = Inr s'"
      then show "- int n \<le> b \<and> b < int n \<and> bcast_ok (reshaped x y) ns"
        using set_bcast_returns [of x "reshaped x y" s b s' n ns]
          inc_bcast_returns [of x "reshaped x y" s b s' n ns] sx reshaped_rank [OF sx, of y]
        by (auto split: if_splits)
    qed
    moreover obtain b0 where "b0 \<in> set idx" using False by (cases idx) auto
    ultimately have ok: "bcast_ok (reshaped x y) ns"
      and bs: "\<forall>i \<in> set idx. - int n \<le> i \<and> i < int n"
      by auto
    have nb': "buf (reshaped x y) \<noteq> buf x" using nb by simp
    from bcast_loop_rows [OF v d nb' sx ok bs, of "set_instead_of_inc op"] loop
    have "rows_of h' x = scatter_rows (set_instead_of_inc op) (rows_of h x)
             (map (\<lambda>i. (row_index n i, bcast_read h (reshaped x y) ns)) idx)"
      by auto
    then show ?thesis using a sx by (auto simp: contributions_def)
  qed
qed

lemma ga_write_nth:
  "buf a < length h \<Longrightarrow> ga_write h a vs ! buf a = store_at (h ! buf a) (ga_offsets a) vs"
  by (simp add: ga_write_def)

lemma ga_valid_append: "ga_valid h a \<Longrightarrow> ga_valid (h @ bs) a"
  by (auto simp: ga_valid_def nth_append)

lemma scalar_read: "shape a = [] \<Longrightarrow> ga_read h a = [h ! buf a ! nat (offset a)]"
  by (simp add: ga_read_def ga_offsets_def)

lemma bcast_read_scalar: "shape v = [] \<Longrightarrow> bcast_read h v [] = ga_read h v"
  by (simp add: bcast_read_def broadcast_view_def ga_read_def ga_offsets_def)

lemma length_new_elements:
  assumes "bcast_ok v (shape a)"
  shows "length (bcast_read h v (shape a)) = length (ga_offsets a)"
    "length (map2 (+) (ga_read h a) (bcast_read h v (shape a))) = length (ga_offsets a)"
  using length_bcast_read [OF assms, of h]
  by (simp_all add: length_ga_offsets ga_read_def)

lemma inc_perform_inplace_store:
  fixes h :: "('a::plus) heap"
  assumes i: "inplace op" and bx: "buf x < length h"
    and run: "inc_perform op idx_list h x y inputs = Inr (h', out)"
  shows "\<exists>cdata sub. convert_all idx_list inputs = Inr cdata \<and>
           ga_getitem_keys x cdata = Inr sub \<and> buf sub = buf x \<and>
           h' ! buf x = store_at (h ! buf x) (ga_offsets sub) (new_elements op h sub y) \<and>
           (ga_valid h sub \<and> distinct (ga_offsets sub) \<longrightarrow>
              ga_read h' sub = new_elements op h sub y)"
proof -
  have p: "(if \<not> inplace op then ga_copy h x else (h, x)) = (h, x)" using i by simp
  from run obtain cdata sub where cv: "convert_all idx_list inputs = Inr cdata"
    and gk: "ga_getitem_keys x cdata = Inr sub"
    unfolding inc_perform_def p by (auto split: sum.splits)
  have bs: "buf sub = buf x" using gk by (rule getitem_keys_buf)
  have bsl: "buf sub < length h" using bs bx by simp
  have main: "\<exists>vs. length vs = length (ga_offsets sub) \<and> vs = new_elements op h sub y \<and>
      h' ! buf sub = store_at (h ! buf sub) (ga_offsets sub) vs \<and>
      (ga_valid h sub \<and> distinct (ga_offsets sub) \<longrightarrow> ga_read h' sub = vs)"
  proof (cases "set_instead_of_inc op")
    case True
    from run have w: "ga_setarray h sub y = Inr h'"
      unfolding inc_perform_def p cv using gk True
      by (auto simp: ga_setitem_keys_def split: sum.splits if_splits)
    from ga_setarray_returns [OF w]
    have ok: "bcast_ok (pad_unit_axes (length (shape sub) - length (shape y)) y) (shape sub)"
      and h': "h' = ga_write h sub (new_elements op h sub y)"
      using True by (simp_all add: new_elements_def)
    have l: "length (new_elements op h sub y) = length (ga_offsets sub)"
      using length_new_elements(1) [OF ok] True by (simp add: new_elements_def)
    show ?thesis
      using l ga_write_nth [OF bsl] ga_read_write_same [where h = h and a = sub] h' by auto
  next
    case False
    show ?thesis
    proof (cases "shape sub = []")
      case ns: False
      from run have w: "elemwise_iadd False h sub y = Inr h'"
        unfolding inc_perform_def p cv using gk False ns
        by (auto split: sum.splits if_splits)
      from elemwise_iadd_returns [OF w]
      have ok: "bcast_ok y (shape sub)"
        and h': "h' = ga_write h sub (new_elements op h sub y)"
        using False by (simp_all add: new_elements_def)
      have l: "length (new_elements op h sub y) = length (ga_offsets sub)"
        using length_new_elements(2) [OF ok] False by (simp add: new_elements_def)
      show ?thesis
        using l ga_write_nth [OF bsl] ga_read_write_same [where h = h and a = sub] h' by auto
    next
      case sc: True
      from run obtain h2 tmp where e2: "elemwise2_add h sub y = Inr (h2, tmp)"
        and w: "ga_setarray h2 sub tmp = Inr h'"
        unfolding inc_perform_def p cv using gk False sc
        by (auto simp: ga_setitem_keys_def split: sum.splits if_splits)
      define vs where "vs = map2 (+) (ga_read h sub) (ga_read h y)"
      from e2 have sy: "shape y = []" and h2: "h2 = h @ [vs]"
        and tmp: "tmp = sub\<lparr>buf := length h, offset := 0, strides := c_strides (shape sub)\<rparr>"
        using sc by (auto simp: elemwise2_add_def vs_def split: if_splits)
      have vs1: "vs = [h ! buf sub ! nat (offset sub) + h ! buf y ! nat (offset y)]"
        by (simp add: vs_def scalar_read sc sy)
      have st: "shape tmp = []" using tmp sc by simp
      have "bcast_read h2 tmp [] = [h2 ! buf tmp ! nat (offset tmp)]"
        using bcast_read_scalar [OF st, of h2] scalar_read [OF st, of h2] by simp
      also have "\<dots> = vs" by (simp add: h2 tmp vs1)
      finally have rt: "bcast_read h2 tmp [] = vs" .
      have ne: "new_elements op h sub y = vs"
        using False by (simp add: new_elements_def sc vs_def bcast_read_scalar [OF sy])
      from ga_setarray_returns [OF w] have h': "h' = ga_write h2 sub vs"
        using sc st rt by simp
      have l: "length vs = length (ga_offsets sub)"
        by (simp add: vs1 length_ga_offsets sc)
      have b2: "buf sub < length h2" using bsl h2 by simp
      have s2: "h2 ! buf sub = h ! buf sub" using bsl h2 by (simp add: nth_append)
      have v2: "ga_valid h2 sub" if "ga_valid h sub"
        using that unfolding h2 by (rule ga_valid_append)
      have "ga_read h' sub = vs" if "ga_valid h sub \<and> distinct (ga_offsets sub)"
        unfolding h' using that l v2 by (intro ga_read_write_same) simp_all
      then show ?thesis
        using l ne ga_write_nth [OF b2, of vs] s2 h' by auto
    qed
  qed
  then show ?thesis using cv gk bs by auto
qed

text \<open>
  Claim C4. For \<^verbatim>\<open>GpuAdvancedIncSubtensor1.perform\<close> and \<^verbatim>\<open>GpuIncSubtensor.perform\<close>,
  whether the call returns or raises. Without \<^verbatim>\<open>inplace\<close> every buffer of the old
  store, the destination's among them, is unchanged, and a returned result lives in a
  new buffer. With \<^verbatim>\<open>inplace\<close> a returned result is the destination array itself, its
  buffer is the only old one that may have changed, and the update is in that buffer:
  after a scatter update of a valid destination without overlapping elements, whose
  buffer is not the source's, the rows of the destination are its old rows with the
  update applied; after a combination the buffer of the destination is the old buffer
  with the new elements stored at the positions of the selected view, and reading the
  view gives those elements when it is valid and its positions are distinct.
\<close>

theorem inplace_flag_effect:
  fixes h :: "('a::plus) heap"
  shows
  "(\<not> inplace op \<longrightarrow> adv_perform op h x y idx = Inr (h', out) \<longrightarrow>
      take (length h) h' = h \<and> buf out = length h \<and>
      (buf x < length h \<longrightarrow> ga_read h' x = ga_read h x)) \<and>
   (\<not> inplace op \<longrightarrow> inc_perform op idx_list h x y inputs = Inr (h', out) \<longrightarrow>
      take (length h) h' = h \<and> buf out = length h \<and>
      (buf x < length h \<longrightarrow> ga_read h' x = ga_read h x)) \<and>
   (inplace op \<longrightarrow> adv_perform op h x y idx = Inr (h', out) \<longrightarrow>
      out = x \<and> length h \<le> length h' \<and> (\<forall>a < length h. a \<noteq> buf x \<longrightarrow> h' ! a = h ! a)) \<and>
   (inplace op \<longrightarrow> inc_perform op idx_list h x y inputs = Inr (h', out) \<longrightarrow>
      out = x \<and> length h \<le> length h' \<and> (\<forall>a < length h. a \<noteq> buf x \<longrightarrow> h' ! a = h ! a)) \<and>
   (\<not> inplace op \<longrightarrow>
      adv_perform op h x y idx = Inl (e, h') \<or>
      inc_perform op idx_list h x y inputs = Inl (e, h') \<longrightarrow>
      take (length h) h' = h \<and> (buf x < length h \<longrightarrow> ga_read h' x = ga_read h x)) \<and>
   (inplace op \<longrightarrow>
      adv_perform op h x y idx = Inl (e, h') \<or>
      inc_perform op idx_list h x y inputs = Inl (e, h') \<longrightarrow>
      length h \<le> length h' \<and> (\<forall>a < length h. a \<noteq> buf x \<longrightarrow> h' ! a = h ! a)) \<and>
   (inplace op \<and> ga_valid h x \<and> distinct (ga_offsets x) \<and> buf y \<noteq> buf x \<and> shape x \<noteq> [] \<longrightarrow>
      adv_perform op h x y idx = Inr (h', out) \<longrightarrow>
      rows_of h' x
        = scatter_rows (set_instead_of_inc op) (rows_of h x) (contributions h x y idx)) \<and>
   (inplace op \<and> buf x < length h \<longrightarrow>
      inc_perform op idx_list h x y inputs = Inr (h', out) \<longrightarrow>
      (\<exists>cdata sub. convert_all idx_list inputs = Inr cdata \<and>
         ga_getitem_keys x cdata = Inr sub \<and> buf sub = buf x \<and>
         h' ! buf x = store_at (h ! buf x) (ga_offsets sub) (new_elements op h sub y) \<and>
         (ga_valid h sub \<and> distinct (ga_offsets sub) \<longrightarrow>
            ga_read h' sub = new_elements op h sub y)))"
proof -
  have copy: "take (length h) h' = h \<and> buf out = length h \<and>
      (buf x < length h \<longrightarrow> ga_read h' x = ga_read h x)"
    if n: "\<not> inplace op"
      and r: "adv_perform op h x y idx = Inr (h', out) \<or>
              inc_perform op idx_list h x y inputs = Inr (h', out)"
  proof -
    from r have f: "out = snd (ga_copy h x) \<and> frame (buf out) (fst (ga_copy h x)) h'"
      using adv_perform_frame [of op h x y idx h' out]
        inc_perform_frame [of op idx_list h x y inputs h' out] n by auto
    then have b: "buf out = length h" by (simp add: ga_copy_def)
    from f b have "frame (length h) (h @ [ga_read h x]) h'" by (simp add: ga_copy_def)
    then have t: "take (length h) h' = h" by (rule frame_copy_prefix)
    then show ?thesis using b frame_prefix_read [of h h' x] by simp
  qed
  have inpl: "out = x \<and> length h \<le> length h' \<and> (\<forall>a < length h. a \<noteq> buf x \<longrightarrow> h' ! a = h ! a)"
    if i: "inplace op"
      and r: "adv_perform op h x y idx = Inr (h', out) \<or>
              inc_perform op idx_list h x y inputs = Inr (h', out)"
  proof -
    from r have f: "out = x \<and> frame (buf out) h h'"
      using adv_perform_frame [of op h x y idx h' out]
        inc_perform_frame [of op idx_list h x y inputs h' out] i by auto
    then show ?thesis by (auto simp: frame_def)
  qed
  have copy_raise: "take (length h) h' = h \<and> (buf x < length h \<longrightarrow> ga_read h' x = ga_read h x)"
    if n: "\<not> inplace op"
      and r: "adv_perform op h x y idx = Inl (e, h') \<or>
              inc_perform op idx_list h x y inputs = Inl (e, h')"
  proof -
    from r have "h' = h \<or> frame (buf (snd (ga_copy h x))) (fst (ga_copy h x)) h'"
      using adv_perform_frame_raise [of op h x y idx e h']
        inc_perform_frame_raise [of op idx_list h x y inputs e h'] n by auto
    then have "h' = h \<or> frame (length h) (h @ [ga_read h x]) h'" by (simp add: ga_copy_def)
    then have t: "take (length h) h' = h" using frame_copy_prefix [of h "ga_read h x" h'] by auto
    then show ?thesis using frame_prefix_read [of h h' x] by simp
  qed
  have inpl_raise: "length h \<le> length h' \<and> (\<forall>a < length h. a \<noteq> buf x \<longrightarrow> h' ! a = h ! a)"
    if i: "inplace op"
      and r: "adv_perform op h x y idx = Inl (e, h') \<or>
              inc_perform op idx_list h x y inputs = Inl (e, h')"
  proof -
    from r have "h' = h \<or> frame (buf x) h h'"
      using adv_perform_frame_raise [of op h x y idx e h']
        inc_perform_frame_raise [of op idx_list h x y inputs e h'] i by auto
    then show ?thesis by (auto simp: frame_def)
  qed
  have rows: "rows_of h' x
        = scatter_rows (set_instead_of_inc op) (rows_of h x) (contributions h x y idx)"
    if a: "inplace op \<and> ga_valid h x \<and> distinct (ga_offsets x) \<and> buf y \<noteq> buf x \<and> shape x \<noteq> []"
      and r: "adv_perform op h x y idx = Inr (h', out)"
  proof -
    obtain n ns where sx: "shape x = n # ns" using a by (cases "shape x") auto
    from a r show ?thesis by (intro adv_perform_inplace_rows [OF _ _ _ _ sx]) simp_all
  qed
  have store: "\<exists>cdata sub. convert_all idx_list inputs = Inr cdata \<and>
         ga_getitem_keys x cdata = Inr sub \<and> buf sub = buf x \<and>
         h' ! buf x = store_at (h ! buf x) (ga_offsets sub) (new_elements op h sub y) \<and>
         (ga_valid h sub \<and> distinct (ga_offsets sub) \<longrightarrow>
            ga_read h' sub = new_elements op h sub y)"
    if "inplace op \<and> buf x < length h"
      and "inc_perform op idx_list h x y inputs = Inr (h', out)"
    using that by (intro inc_perform_inplace_store) simp_all
  from copy inpl copy_raise inpl_raise rows store show ?thesis by blast
qed


theorem inplace_flag_effect_witness:
  "\<not> inplace op_copy \<and> inplace op_inplace \<and>
   adv_perform op_copy ex_heap ex_x ex_y [0, 0]
     = Inr (ex_heap @ [[2, 2, 0, 0, 0, 0]], ex_x\<lparr>buf := 2\<rparr>) \<and>
   ga_read (ex_heap @ [[2, 2, 0, 0, 0, 0]]) ex_x = ga_read ex_heap ex_x \<and>
   adv_perform op_inplace ex_heap ex_x ex_y [0, 0]
     = Inr ([[2, 2, 0, 0, 0, 0], [1, 1, 1, 1]], ex_x) \<and>
   inc_perform op_copy [SliceOf (Some (Const 1)) None None] ex_count ex_x ex_y []
     = Inr (ex_count @ [[0, 1, 3, 4, 5, 6]], ex_x\<lparr>buf := 2\<rparr>) \<and>
   ga_read (ex_count @ [[0, 1, 3, 4, 5, 6]]) ex_x = ga_read ex_count ex_x \<and>
   inc_perform op_inplace [SliceOf (Some (Const 1)) None None] ex_count ex_x ex_y []
     = Inr ([[0, 1, 3, 4, 5, 6], [1, 1, 1, 1]], ex_x) \<and>
   adv_perform op_copy ex_heap ex_x ex_y [0, 5]
     = Inl (IndexError, ex_heap @ [[1, 1, 0, 0, 0, 0]]) \<and>
   ga_read (ex_heap @ [[1, 1, 0, 0, 0, 0]]) ex_x = ga_read ex_heap ex_x \<and>
   adv_perform op_inplace ex_heap ex_x ex_y [0, 5]
     = Inl (IndexError, [[1, 1, 0, 0, 0, 0], [1, 1, 1, 1]]) \<and>
   ga_valid ex_heap ex_x \<and> distinct (ga_offsets ex_x) \<and> buf ex_y \<noteq> buf ex_x \<and>
   shape ex_x \<noteq> [] \<and>
   rows_of [[2, 2, 0, 0, 0, 0], [1, 1, 1, 1]] ex_x
     = scatter_rows (set_instead_of_inc op_inplace) (rows_of ex_heap ex_x)
         (contributions ex_heap ex_x ex_y [0, 0]) \<and>
   rows_of [[2, 2, 0, 0, 0, 0], [1, 1, 1, 1 :: int]] ex_x = [[2, 2], [0, 0], [0, 0]] \<and>
   buf ex_x < length ex_count \<and>
   ga_getitem_keys ex_x [KSlice (Some 1) None None]
     = Inr (ex_x\<lparr>offset := 2, shape := [2, 2]\<rparr>) \<and>
   ga_valid ex_count (ex_x\<lparr>offset := 2, shape := [2, 2]\<rparr>) \<and>
   distinct (ga_offsets (ex_x\<lparr>offset := 2, shape := [2, 2]\<rparr>)) \<and>
   new_elements op_inplace ex_count (ex_x\<lparr>offset := 2, shape := [2, 2]\<rparr>) ex_y = [3, 4, 5, 6] \<and>
   (\<exists>cdata sub. convert_all [SliceOf (Some (Const 1)) None None] [] = Inr cdata \<and>
      ga_getitem_keys ex_x cdata = Inr sub \<and> buf sub = buf ex_x \<and>
      [[0, 1, 3, 4, 5, 6], [1, 1, 1, 1]] ! buf ex_x
        = store_at (ex_count ! buf ex_x) (ga_offsets sub) (new_elements op_inplace ex_count sub ex_y) \<and>
      ga_read [[0, 1, 3, 4, 5, 6], [1, 1, 1, 1]] sub = new_elements op_inplace ex_count sub ex_y)"
proof -
  have n: "\<not> inplace op_copy" and i: "inplace op_inplace"
    by (simp_all add: op_inplace_def op_copy_def)
  have b: "buf ex_x < length ex_heap" "buf ex_x < length ex_count"
    by (simp_all add: ex_x_def ex_heap_def ex_count_def)
  have a1: "adv_perform op_copy ex_heap ex_x ex_y [0, 0]
     = Inr (ex_heap @ [[2, 2, 0, 0, 0, 0]], ex_x\<lparr>buf := 2\<rparr>)" by code_simp
  have a2: "adv_perform op_inplace ex_heap ex_x ex_y [0, 0]
     = Inr ([[2, 2, 0, 0, 0, 0], [1, 1, 1, 1]], ex_x)" by code_simp
  have a3: "inc_perform op_copy [SliceOf (Some (Const 1)) None None] ex_count ex_x ex_y []
     = Inr (ex_count @ [[0, 1, 3, 4, 5, 6]], ex_x\<lparr>buf := 2\<rparr>)" by code_simp
  have a4: "inc_perform op_inplace [SliceOf (Some (Const 1)) None None] ex_count ex_x ex_y []
     = Inr ([[0, 1, 3, 4, 5, 6], [1, 1, 1, 1]], ex_x)" by code_simp
  have a5: "adv_perform op_copy ex_heap ex_x ex_y [0, 5]
     = Inl (IndexError, ex_heap @ [[1, 1, 0, 0, 0, 0]])" by code_simp
  have a6: "adv_perform op_inplace ex_heap ex_x ex_y [0, 5]
     = Inl (IndexError, [[1, 1, 0, 0, 0, 0], [1, 1, 1, 1]])" by code_simp
  have wf: "ga_valid ex_heap ex_x \<and> distinct (ga_offsets ex_x) \<and> buf ex_y \<noteq> buf ex_x \<and>
      shape ex_x \<noteq> []" by code_simp
  have c1: "rows_of [[2, 2, 0, 0, 0, 0], [1, 1, 1, 1 :: int]] ex_x = [[2, 2], [0, 0], [0, 0]]"
    by code_simp
  have g: "ga_getitem_keys ex_x [KSlice (Some 1) None None]
     = Inr (ex_x\<lparr>offset := 2, shape := [2, 2]\<rparr>)" by code_simp
  have cv: "convert_all [SliceOf (Some (Const 1)) None None] [] = Inr [KSlice (Some 1) None None]"
    by simp
  have sv: "ga_valid ex_count (ex_x\<lparr>offset := 2, shape := [2, 2]\<rparr>) \<and>
      distinct (ga_offsets (ex_x\<lparr>offset := 2, shape := [2, 2]\<rparr>))" by code_simp
  have ne: "new_elements op_inplace ex_count (ex_x\<lparr>offset := 2, shape := [2, 2]\<rparr>) ex_y
      = [3, 4, 5, 6]" by code_simp
  have r1: "ga_read (ex_heap @ [[2, 2, 0, 0, 0, 0]]) ex_x = ga_read ex_heap ex_x"
    using n a1 b inplace_flag_effect [where op = op_copy and h = ex_heap and x = ex_x and y = ex_y
        and idx = "[0, 0]" and h' = "ex_heap @ [[2, 2, 0, 0, 0, 0]]" and out = "ex_x\<lparr>buf := 2\<rparr>"]
    by blast
  have r2: "ga_read (ex_count @ [[0, 1, 3, 4, 5, 6]]) ex_x = ga_read ex_count ex_x"
    using n a3 b inplace_flag_effect [where op = op_copy and h = ex_count and x = ex_x and y = ex_y
        and h' = "ex_count @ [[0, 1, 3, 4, 5, 6]]" and out = "ex_x\<lparr>buf := 2\<rparr>"
        and idx_list = "[SliceOf (Some (Const 1)) None None]" and inputs = "[]"]
    by blast
  have r3: "ga_read (ex_heap @ [[1, 1, 0, 0, 0, 0]]) ex_x = ga_read ex_heap ex_x"
    using n a5 b inplace_flag_effect [where op = op_copy and h = ex_heap and x = ex_x and y = ex_y
        and idx = "[0, 5]" and h' = "ex_heap @ [[1, 1, 0, 0, 0, 0]]" and e = IndexError]
    by blast
  have r4: "rows_of [[2, 2, 0, 0, 0, 0], [1, 1, 1, 1]] ex_x
     = scatter_rows (set_instead_of_inc op_inplace) (rows_of ex_heap ex_x)
         (contributions ex_heap ex_x ex_y [0, 0])"
    using i wf a2 inplace_flag_effect [where op = op_inplace and h = ex_heap and x = ex_x
        and y = ex_y and idx = "[0, 0]" and h' = "[[2, 2, 0, 0, 0, 0], [1, 1, 1, 1]]"
        and out = ex_x]
    by blast
  have "\<exists>cdata sub. convert_all [SliceOf (Some (Const 1)) None None] [] = Inr cdata \<and>
      ga_getitem_keys ex_x cdata = Inr sub \<and> buf sub = buf ex_x \<and>
      [[0, 1, 3, 4, 5, 6], [1, 1, 1, 1]] ! buf ex_x
        = store_at (ex_count ! buf ex_x) (ga_offsets sub) (new_elements op_inplace ex_count sub ex_y) \<and>
      (ga_valid ex_count sub \<and> distinct (ga_offsets sub) \<longrightarrow>
         ga_read [[0, 1, 3, 4, 5, 6], [1, 1, 1, 1]] sub = new_elements op_inplace ex_count sub ex_y)"
    using i b a4 inplace_flag_effect [where op = op_inplace and h = ex_count and x = ex_x
        and y = ex_y and h' = "[[0, 1, 3, 4, 5, 6], [1, 1, 1, 1]]" and out = ex_x
        and idx_list = "[SliceOf (Some (Const 1)) None None]" and inputs = "[]"]
    by blast
  then have r5: "\<exists>cdata sub. convert_all [SliceOf (Some (Const 1)) None None] [] = Inr cdata \<and>
      ga_getitem_keys ex_x cdata = Inr sub \<and> buf sub = buf ex_x \<and>
      [[0, 1, 3, 4, 5, 6], [1, 1, 1, 1]] ! buf ex_x
        = store_at (ex_count ! buf ex_x) (ga_offsets sub) (new_elements op_inplace ex_count sub ex_y) \<and>
      ga_read [[0, 1, 3, 4, 5, 6], [1, 1, 1, 1]] sub = new_elements op_inplace ex_count sub ex_y"
    using cv g sv by auto
  show ?thesis
    using n i a1 r1 a2 a3 r2 a4 a5 r3 a6 wf r4 c1 b(2) g sv ne r5
    by (intro conjI) blast+
qed


end
